theory Spec2Isabelle
  imports Main "HOL-Library.Multiset"
begin

section \<open>The voice-leading optimizer of PianoRoll (src/utils/theory-functions.ts)\<close>

subsection \<open>Data model\<close>

text \<open>
  A \<open>Note\<close> of the source: \<open>voice\<close> is an optional field, \<open>None\<close> stands for
  \<open>undefined\<close>. Pitches, positions and durations are the integers the editor supplies.
  A \<open>Chord\<close> carries a duration that is a number or \<open>Infinity\<close> (\<open>None\<close>).
  The only exception the optimizer can raise is a \<open>TypeError\<close> (a property read on
  \<open>undefined\<close>). The caller (\<open>OptimizeHarmonyDialog\<close>) builds a fresh object for every
  note, so no object occurs twice in the input and every note object lies in exactly one
  chord: the notes of a chord are modelled by value, and a write through a reference to a
  note is a write at the note's index in its chord.
\<close>

datatype error = TypeError

record Note =
  pitch :: int
  position :: int
  duration :: int
  voice :: "int option"

record Chord =
  chord_position :: int
  chord_notes :: "Note list"
  chord_duration :: "int option"

text \<open>The source's \<open>note.voice || 0\<close>: an undefined voice counts as 0.\<close>

definition vnum :: "Note \<Rightarrow> int" where
  "vnum n = (case voice n of None \<Rightarrow> 0 | Some v \<Rightarrow> v)"

text \<open>\<open>Array.prototype.findIndex\<close>: the first index whose element satisfies the test.\<close>

fun findIndex :: "('a \<Rightarrow> bool) \<Rightarrow> 'a list \<Rightarrow> nat option" where
  "findIndex P [] = None"
| "findIndex P (x # xs) = (if P x then Some 0 else map_option Suc (findIndex P xs))"

subsection \<open>identifyChords and determineVoiceCount\<close>

definition tagMelody :: "Note list \<Rightarrow> Note \<Rightarrow> Note" where
  "tagMelody melodyNotes n =
     (if \<exists>m \<in> set melodyNotes. pitch m = pitch n \<and> position m = position n
      then n\<lparr>voice := Some 0\<rparr> else n)"

definition sortedPositions :: "Note list \<Rightarrow> int list" where
  "sortedPositions allNotes = sort (remdups (map position allNotes))"

text \<open>
  One chord per sorted position. \<open>sortedPositions[i + 1] || Infinity\<close> is \<open>Infinity\<close>
  when there is no next position and also when the next position is 0.
\<close>

fun buildChords :: "Note list \<Rightarrow> Note list \<Rightarrow> int list \<Rightarrow> Chord list" where
  "buildChords melodyNotes allNotes [] = []"
| "buildChords melodyNotes allNotes (p # ps) =
     \<lparr>chord_position = p,
      chord_notes = map (tagMelody melodyNotes) (filter (\<lambda>n. position n = p) allNotes),
      chord_duration = (case ps of [] \<Rightarrow> None
                        | q # _ \<Rightarrow> if q = 0 then None else Some (q - p))\<rparr>
     # buildChords melodyNotes allNotes ps"

definition identifyChords :: "Note list \<Rightarrow> Note list \<Rightarrow> Chord list" where
  "identifyChords melodyNotes harmonyNotes =
     (let allNotes = melodyNotes @ harmonyNotes
      in buildChords melodyNotes allNotes (sortedPositions allNotes))"

definition determineVoiceCount :: "Chord list \<Rightarrow> nat" where
  "determineVoiceCount chords = fold (\<lambda>c maxNotes. max maxNotes (length (chord_notes c))) chords 0"

subsection \<open>assignVoicesToFirstChord\<close>

text \<open>
  the remaining notes are handled through their indices in the chord, since the source
  mutates the note objects of the chord through the sorted array of references.
\<close>

fun assignRemaining :: "nat list \<Rightarrow> int \<Rightarrow> int \<Rightarrow> Note list \<Rightarrow> Note list" where
  "assignRemaining [] currentVoice bass ns = ns"
| "assignRemaining [i] currentVoice bass ns = ns[i := (ns ! i)\<lparr>voice := Some bass\<rparr>]"
| "assignRemaining (i # j # js) currentVoice bass ns =
     assignRemaining (j # js) (currentVoice + 1) bass (ns[i := (ns ! i)\<lparr>voice := Some currentVoice\<rparr>])"

definition unfixedIdx :: "Note list \<Rightarrow> nat list" where
  "unfixedIdx ns = filter (\<lambda>i. voice (ns ! i) = None) [0..<length ns]"

definition assignVoicesToFirstChord :: "Chord \<Rightarrow> nat \<Rightarrow> Chord" where
  "assignVoicesToFirstChord c numVoices =
     (let ns = chord_notes c;
          melodyNote = find (\<lambda>n. voice n = Some 0) ns;
          remainingNotes = sort_key (\<lambda>i. - pitch (ns ! i)) (unfixedIdx ns);
          currentVoice = (if melodyNote = None then 0 else 1)
      in c\<lparr>chord_notes := assignRemaining remainingNotes currentVoice (int numVoices - 1) ns\<rparr>)"

subsection \<open>The cost model\<close>

text \<open>JavaScript's \<open>%\<close> truncates towards zero: the result has the sign of the dividend.\<close>

definition jsRem :: "int \<Rightarrow> int \<Rightarrow> int" where
  "jsRem a b = sgn a * (\<bar>a\<bar> mod \<bar>b\<bar>)"

definition isParallelFifthOrOctave :: "int \<Rightarrow> int \<Rightarrow> bool" where
  "isParallelFifthOrOctave interval1 interval2 =
     ((jsRem interval1 12 = 7 \<and> jsRem interval2 12 = 7) \<or>
      (jsRem interval1 12 = 0 \<and> jsRem interval2 12 = 0 \<and> interval1 \<noteq> 0))"

text \<open>
  \<open>assignedNotes[i].voice = voiceAssignments[i]\<close> for every index of the assignment:
  the write goes to the first notes of the chord, whatever they are.
\<close>

definition writeVoices :: "int list \<Rightarrow> Note list \<Rightarrow> Note list" where
  "writeVoices va ns = map (\<lambda>(v, n). n\<lparr>voice := Some v\<rparr>) (zip va ns) @ drop (length va) ns"

text \<open>The double loop \<open>for i, for j = i + 1\<close> over an array, adding \<open>f\<close> of each pair.\<close>

fun pairSum :: "('a \<Rightarrow> 'a \<Rightarrow> int) \<Rightarrow> 'a list \<Rightarrow> int" where
  "pairSum f [] = 0"
| "pairSum f (x # xs) = (\<Sum>y\<leftarrow>xs. f x y) + pairSum f xs"

definition crossingCost :: "Note list \<Rightarrow> int" where
  "crossingCost currentSorted =
     pairSum (\<lambda>a b. if vnum a < vnum b \<and> pitch a < pitch b then 1000 else 0) currentSorted"

fun spacingCost :: "Note list \<Rightarrow> int" where
  "spacingCost (x # y # rest) =
     (if pitch x - pitch y > 12 then 100 else 0) + spacingCost (y # rest)"
| "spacingCost _ = 0"

definition pairParallel :: "Note list \<Rightarrow> Note \<Rightarrow> Note \<Rightarrow> int" where
  "pairParallel currentSorted a b =
     (let prevInterval = \<bar>pitch a - pitch b\<bar> in
      case findIndex (\<lambda>n. voice n = voice a) currentSorted of
        None \<Rightarrow> 0
      | Some currentVoiceI \<Rightarrow>
         (case findIndex (\<lambda>n. voice n = voice b) currentSorted of
            None \<Rightarrow> 0
          | Some currentVoiceJ \<Rightarrow>
             (let currentInterval =
                    \<bar>pitch (currentSorted ! currentVoiceI) - pitch (currentSorted ! currentVoiceJ)\<bar>
              in if isParallelFifthOrOctave prevInterval currentInterval then 500 else 0)))"

definition parallelCost :: "Note list \<Rightarrow> Note list \<Rightarrow> int" where
  "parallelCost prevSorted currentSorted = pairSum (pairParallel currentSorted) prevSorted"

definition movementOf :: "Note list \<Rightarrow> Note \<Rightarrow> int" where
  "movementOf currentSorted a =
     (case findIndex (\<lambda>n. voice n = voice a) currentSorted of
        None \<Rightarrow> 0
      | Some currentVoiceIdx \<Rightarrow> \<bar>pitch a - pitch (currentSorted ! currentVoiceIdx)\<bar> * 2)"

definition movementCost :: "Note list \<Rightarrow> Note list \<Rightarrow> int" where
  "movementCost prevSorted currentSorted = (\<Sum>a\<leftarrow>prevSorted. movementOf currentSorted a)"

text \<open>
  The cost of the notes as they stand (after the write), and the function of the source:
  it returns the cost together with the chord it has mutated, or the \<open>TypeError\<close> of a
  write past the end of the chord.
\<close>

definition costOfNotes :: "Note list \<Rightarrow> Note list \<Rightarrow> int" where
  "costOfNotes prevNotes assignedNotes =
     (let prevSorted = sort_key vnum prevNotes;
          currentSorted = sort_key vnum assignedNotes
      in crossingCost currentSorted + spacingCost currentSorted
         + parallelCost prevSorted currentSorted + movementCost prevSorted currentSorted)"

definition calculateVoiceLeadingCost :: "Chord \<Rightarrow> Chord \<Rightarrow> int list \<Rightarrow> error + (int \<times> Chord)" where
  "calculateVoiceLeadingCost prevChord currentChord voiceAssignments =
     (if length voiceAssignments > length (chord_notes currentChord) then Inl TypeError
      else (let assignedNotes = writeVoices voiceAssignments (chord_notes currentChord)
            in Inr (costOfNotes (chord_notes prevChord) assignedNotes,
                    currentChord\<lparr>chord_notes := assignedNotes\<rparr>)))"

subsection \<open>generatePermutations and generateVoiceAssignments\<close>

text \<open>
  \<open>backtrack\<close> pushes onto \<open>result\<close> in the order of its calls, so the model returns the
  list of what one call pushes. The parameter \<open>start\<close> is passed as in the source.
\<close>

function backtrack :: "int list \<Rightarrow> nat \<Rightarrow> nat \<Rightarrow> int list \<Rightarrow> int list list" where
  "backtrack array k start current =
     (if length current = k then [current]
      else concat (map (\<lambda>i. if array ! i \<in> set current then []
                             else backtrack array k (i + 1) (current @ [array ! i]))
                       [0..<length array]))"
  by pat_completeness auto
termination
proof (relation "measure (\<lambda>(array, k, start, current). card (set array - set current))")
  show "wf (measure (\<lambda>(array, k, start, current). card (set array - set current)))"
    by simp
next
  fix array :: "int list" and k start :: nat and current :: "int list" and i :: nat
  assume i: "i \<in> set [0..<length array]" and fresh: "array ! i \<notin> set current"
  have mem: "array ! i \<in> set array - set current"
    using i fresh by simp
  have "set array - set (current @ [array ! i]) = (set array - set current) - {array ! i}"
    by auto
  moreover have "card ((set array - set current) - {array ! i}) < card (set array - set current)"
    using mem by (intro card_Diff1_less) auto
  ultimately have "card (set array - set (current @ [array ! i])) < card (set array - set current)"
    by simp
  then show "((array, k, i + 1, current @ [array ! i]), (array, k, start, current))
             \<in> measure (\<lambda>(array, k, start, current). card (set array - set current))"
    by simp
qed

declare backtrack.simps [simp del]

definition generatePermutations :: "int list \<Rightarrow> nat \<Rightarrow> int list list" where
  "generatePermutations array k = backtrack array k 0 []"

definition availableVoices :: "Note list \<Rightarrow> nat \<Rightarrow> int list" where
  "availableVoices ns numVoices =
     (let fixedNotes = filter (\<lambda>n. voice n \<noteq> None) ns;
          usedVoices = set (map voice fixedNotes)
      in filter (\<lambda>v. Some v \<notin> usedVoices) (map int [0..<numVoices]))"

definition generateVoiceAssignments :: "Chord \<Rightarrow> nat \<Rightarrow> int list list" where
  "generateVoiceAssignments c numVoices =
     generatePermutations (availableVoices (chord_notes c) numVoices) (length (unfixedIdx (chord_notes c)))"

subsection \<open>optimizeChordVoicing\<close>

text \<open>
  \<open>unfixedNotes[i].voice = assignment[i]\<close> for every unfixed note, the unfixed notes being
  given by their indices in the chord; an index past the end of the assignment reads
  \<open>undefined\<close>.
\<close>

fun setVoicesAt :: "nat list \<Rightarrow> int list \<Rightarrow> Note list \<Rightarrow> Note list" where
  "setVoicesAt [] assignment ns = ns"
| "setVoicesAt (u # us) assignment ns =
     setVoicesAt us (tl assignment)
       (ns[u := (ns ! u)\<lparr>voice := (case assignment of [] \<Rightarrow> None | v # _ \<Rightarrow> Some v)\<rparr>])"

definition resetVoicesAt :: "nat list \<Rightarrow> Note list \<Rightarrow> Note list" where
  "resetVoicesAt us ns = fold (\<lambda>u acc. acc[u := (acc ! u)\<lparr>voice := None\<rparr>]) us ns"

definition improves :: "int \<Rightarrow> int option \<Rightarrow> bool" where
  "improves cost lowestCost = (case lowestCost of None \<Rightarrow> True | Some l \<Rightarrow> cost < l)"

text \<open>
  The loop over \<open>possibleAssignments\<close>. Its state is the chord being mutated, the lowest
  cost so far (\<open>None\<close> for \<open>Infinity\<close>) and the best assignment so far (\<open>None\<close> for \<open>null\<close>).
\<close>

fun searchAssignments ::
  "Chord \<Rightarrow> nat list \<Rightarrow> int list list \<Rightarrow> Chord \<times> int option \<times> int list option
   \<Rightarrow> error + (Chord \<times> int option \<times> int list option)" where
  "searchAssignments prevChord unfixedNotes [] st = Inr st"
| "searchAssignments prevChord unfixedNotes (assignment # rest) (currentChord, lowestCost, bestAssignment) =
     (case calculateVoiceLeadingCost prevChord
             (currentChord\<lparr>chord_notes := setVoicesAt unfixedNotes assignment (chord_notes currentChord)\<rparr>)
             assignment of
        Inl e \<Rightarrow> Inl e
      | Inr (cost, scored) \<Rightarrow>
          searchAssignments prevChord unfixedNotes rest
            (scored\<lparr>chord_notes := resetVoicesAt unfixedNotes (chord_notes scored)\<rparr>,
             if improves cost lowestCost then Some cost else lowestCost,
             if improves cost lowestCost then Some assignment else bestAssignment))"

text \<open>The chord once the best assignment is applied, before \<open>adjustOctaves\<close>.\<close>

definition commitBest :: "Chord \<Rightarrow> Chord \<Rightarrow> nat \<Rightarrow> error + Chord" where
  "commitBest prevChord currentChord numVoices =
     (let unfixedNotes = unfixedIdx (chord_notes currentChord)
      in case searchAssignments prevChord unfixedNotes
                (generateVoiceAssignments currentChord numVoices) (currentChord, None, None) of
           Inl e \<Rightarrow> Inl e
         | Inr (searched, lowestCost, bestAssignment) \<Rightarrow>
             (case bestAssignment of
                None \<Rightarrow> Inr searched
              | Some best \<Rightarrow>
                  Inr (searched\<lparr>chord_notes := setVoicesAt unfixedNotes best (chord_notes searched)\<rparr>)))"

subsection \<open>adjustOctaves\<close>

function lowerBass :: "int \<Rightarrow> int \<Rightarrow> int" where
  "lowerBass p lowestPitch = (if p > lowestPitch then lowerBass (p - 12) lowestPitch else p)"
  by pat_completeness auto
termination
  by (relation "measure (\<lambda>(p, lowestPitch). nat (p - lowestPitch))") auto

declare lowerBass.simps [simp del]

definition placeAbove :: "Note \<Rightarrow> Note \<Rightarrow> Note" where
  "placeAbove currentNote lowerNote =
     (let p1 = (if pitch currentNote \<le> pitch lowerNote
                then pitch currentNote + 12 * ((pitch lowerNote - pitch currentNote) div 12 + 1)
                else pitch currentNote);
          p2 = (if p1 - pitch lowerNote > 12
                then p1 - 12 * ((p1 - pitch lowerNote) div 12)
                else p1)
      in currentNote\<lparr>pitch := p2\<rparr>)"

text \<open>
  The loop from index \<open>length - 2\<close> down to 0: each note is placed relative to the note
  after it, which the loop has already placed.
\<close>

fun adjustUpper :: "Note list \<Rightarrow> Note list" where
  "adjustUpper [] = []"
| "adjustUpper (currentNote # below) =
     (case adjustUpper below of
        [] \<Rightarrow> [currentNote]
      | lowerNote # rest \<Rightarrow> placeAbove currentNote lowerNote # lowerNote # rest)"

definition adjustOctaves :: "Chord \<Rightarrow> Chord" where
  "adjustOctaves c =
     (let sorted = sort_key vnum (chord_notes c)
      in if sorted = [] then c\<lparr>chord_notes := sorted\<rparr>
         else (let bassVoice = Max (set (map vnum sorted))
               in case findIndex (\<lambda>n. voice n = Some bassVoice) sorted of
                    None \<Rightarrow> c\<lparr>chord_notes := sorted\<rparr>
                  | Some b \<Rightarrow>
                      (let bassNote = sorted ! b;
                           lowestPitch = Min (set (map pitch sorted));
                           lowered = (if pitch bassNote \<noteq> lowestPitch
                                      then sorted[b := bassNote\<lparr>pitch := lowerBass (pitch bassNote) lowestPitch\<rparr>]
                                      else sorted)
                       in c\<lparr>chord_notes := adjustUpper lowered\<rparr>)))"

definition optimizeChordVoicing :: "Chord \<Rightarrow> Chord \<Rightarrow> nat \<Rightarrow> error + Chord" where
  "optimizeChordVoicing prevChord currentChord numVoices =
     (if unfixedIdx (chord_notes currentChord) = [] then Inr currentChord
      else (case commitBest prevChord currentChord numVoices of
              Inl e \<Rightarrow> Inl e
            | Inr committed \<Rightarrow> Inr (adjustOctaves committed)))"

subsection \<open>adjustHarmonyOctaveRelativeToMelody, flattenChordsToNotes, optimizeVoiceLeading\<close>

definition flattenChordsToNotes :: "Chord list \<Rightarrow> Note list" where
  "flattenChordsToNotes chords = concat (map chord_notes chords)"

definition isMelody :: "Note \<Rightarrow> bool" where
  "isMelody n = (voice n = Some 0)"

definition isHarmony :: "Note \<Rightarrow> bool" where
  "isHarmony n = (voice n \<noteq> None \<and> voice n \<noteq> Some 0)"

definition shiftNote :: "int \<Rightarrow> Note \<Rightarrow> Note" where
  "shiftNote pitchAdjustment n =
     (if isHarmony n then n\<lparr>pitch := pitch n + pitchAdjustment\<rparr> else n)"

definition shiftHarmony :: "int \<Rightarrow> Chord \<Rightarrow> Chord" where
  "shiftHarmony pitchAdjustment c =
     c\<lparr>chord_notes := map (shiftNote pitchAdjustment) (chord_notes c)\<rparr>"

definition adjustHarmonyOctaveRelativeToMelody :: "Chord list \<Rightarrow> Chord list" where
  "adjustHarmonyOctaveRelativeToMelody chords =
     (let allNotes = flattenChordsToNotes chords;
          melodyNotes = filter isMelody allNotes;
          harmonyNotes = filter isHarmony allNotes
      in if melodyNotes = [] \<or> harmonyNotes = [] then chords
         else (let minMelodyPitch = Min (set (map pitch melodyNotes));
                   maxHarmonyPitch = Max (set (map pitch harmonyNotes));
                   gap = minMelodyPitch - maxHarmonyPitch
               in if gap > 12
                  then (let octavesToShift = (gap - 1) div 12;
                            pitchAdjustment = octavesToShift * 12
                        in if pitchAdjustment > 0 then map (shiftHarmony pitchAdjustment) chords
                           else chords)
                  else chords))"

text \<open>The loop of \<open>optimizeVoiceLeading\<close> over the chords after the first.\<close>

fun optimizeRest :: "Chord \<Rightarrow> Chord list \<Rightarrow> nat \<Rightarrow> error + Chord list" where
  "optimizeRest prevChord [] numVoices = Inr []"
| "optimizeRest prevChord (currentChord # rest) numVoices =
     (case optimizeChordVoicing prevChord currentChord numVoices of
        Inl e \<Rightarrow> Inl e
      | Inr voiced \<Rightarrow>
          (case optimizeRest voiced rest numVoices of
             Inl e \<Rightarrow> Inl e
           | Inr voicedRest \<Rightarrow> Inr (voiced # voicedRest)))"

text \<open>
  The chords as they are when \<open>flattenChordsToNotes\<close> reads them. \<open>chords[0]\<close> of an empty
  chord sequence is \<open>undefined\<close>, and \<open>assignVoicesToFirstChord\<close> reads \<open>chord.notes\<close>.
\<close>

definition optimizedChords :: "Note list \<Rightarrow> Note list \<Rightarrow> error + Chord list" where
  "optimizedChords melodyNotes harmonyNotes =
     (let chords = identifyChords melodyNotes harmonyNotes;
          numVoices = determineVoiceCount chords
      in case chords of
           [] \<Rightarrow> Inl TypeError
         | c # cs \<Rightarrow>
             (let first = assignVoicesToFirstChord c numVoices
              in case optimizeRest first cs numVoices of
                   Inl e \<Rightarrow> Inl e
                 | Inr voiced \<Rightarrow> Inr (adjustHarmonyOctaveRelativeToMelody (first # voiced))))"

definition optimizeVoiceLeading :: "Note list \<Rightarrow> Note list \<Rightarrow> error + Note list" where
  "optimizeVoiceLeading melodyNotes harmonyNotes =
     (case optimizedChords melodyNotes harmonyNotes of
        Inl e \<Rightarrow> Inl e
      | Inr chords \<Rightarrow> Inr (flattenChordsToNotes chords))"

subsection \<open>The score of a candidate assignment\<close>

text \<open>
  The notes the cost function computes on when the search scores \<open>assignment\<close>: the
  unfixed notes carry the assignment (the loop of \<open>optimizeChordVoicing\<close>), then the first
  notes of the chord are overwritten with it (\<open>calculateVoiceLeadingCost\<close>). \<open>scoreOf\<close> is
  the cost returned for them.
\<close>

definition candidateNotes :: "Chord \<Rightarrow> int list \<Rightarrow> Note list" where
  "candidateNotes currentChord assignment =
     writeVoices assignment
       (setVoicesAt (unfixedIdx (chord_notes currentChord)) assignment (chord_notes currentChord))"

definition scoreOf :: "Chord \<Rightarrow> Chord \<Rightarrow> int list \<Rightarrow> int" where
  "scoreOf prevChord currentChord assignment =
     costOfNotes (chord_notes prevChord) (candidateNotes currentChord assignment)"

text \<open>
  The cost of the candidate itself: the four loops of the cost function on the chord whose
  unfixed notes carry \<open>assignment\<close> and whose other notes keep the voice they have. It is
  what \<open>scoreOf\<close> would be if the cost function did not write on the chord.
\<close>

definition candidateCost :: "Chord \<Rightarrow> Chord \<Rightarrow> int list \<Rightarrow> int" where
  "candidateCost prevChord currentChord assignment =
     costOfNotes (chord_notes prevChord)
       (setVoicesAt (unfixedIdx (chord_notes currentChord)) assignment (chord_notes currentChord))"

subsection \<open>The invariant of the search loop\<close>

text \<open>
  The state of the search between two candidates: the chord differs from the chord the
  search started on only in the voices of its first \<open>k\<close> notes, and every voice that
  differs is one of \<open>V\<close>.
\<close>

definition searchInv :: "nat \<Rightarrow> int set \<Rightarrow> Note list \<Rightarrow> Note list \<Rightarrow> bool" where
  "searchInv k V xs ys \<longleftrightarrow>
     length xs = length ys \<and>
     (\<forall>j < length ys. (xs ! j)\<lparr>voice := None\<rparr> = (ys ! j)\<lparr>voice := None\<rparr>
        \<and> (k \<le> j \<longrightarrow> xs ! j = ys ! j)
        \<and> (voice (xs ! j) = voice (ys ! j) \<or> (\<exists>v \<in> V. voice (xs ! j) = Some v)))"

subsection \<open>The lowered bass of adjustOctaves\<close>

text \<open>
  The sorted notes of \<open>adjustOctaves\<close> once the bass note, at index \<open>b\<close>, is lowered:
  \<open>adjustOctaves\<close> returns \<open>adjustUpper\<close> of them.
\<close>

definition loweredNotes :: "Note list \<Rightarrow> nat \<Rightarrow> Note list" where
  "loweredNotes ns b =
     (if pitch (ns ! b) \<noteq> Min (set (map pitch ns))
      then ns[b := (ns ! b)\<lparr>pitch := lowerBass (pitch (ns ! b)) (Min (set (map pitch ns)))\<rparr>]
      else ns)"

subsection \<open>The cost as the specification states it\<close>

text \<open>
  The four terms in the words of the specification, over the notes of the previous chord
  and of the candidate chord, for chords whose notes all carry a voice: the voice of a
  note is then \<open>vnum\<close>, and \<open>pitchOfVoice\<close> is the pitch of the note on a voice.
  Two notes are voice-adjacent when no note of the chord lies on a voice between theirs.
  The spacing term comes twice: \<open>spacingPenaltyStated\<close> charges a pair whose pitches
  differ by more than 12 either way, \<open>spacingPenalty\<close> only a pair whose note on the lower
  voice index is more than 12 above the other.
\<close>

definition pitchOfVoice :: "Note list \<Rightarrow> int \<Rightarrow> int" where
  "pitchOfVoice ns v = (case find (\<lambda>n. voice n = Some v) ns of None \<Rightarrow> 0 | Some n \<Rightarrow> pitch n)"

definition commonVoices :: "Note list \<Rightarrow> Note list \<Rightarrow> int list" where
  "commonVoices prevNotes candNotes =
     filter (\<lambda>v. v \<in> set (map vnum candNotes)) (map vnum prevNotes)"

definition voiceAdjacent :: "Note list \<Rightarrow> Note \<Rightarrow> Note \<Rightarrow> bool" where
  "voiceAdjacent ns a b \<longleftrightarrow>
     vnum a < vnum b \<and> (\<forall>c \<in> set ns. \<not> (vnum a < vnum c \<and> vnum c < vnum b))"

definition crossingPenalty :: "Note list \<Rightarrow> int" where
  "crossingPenalty candNotes =
     (\<Sum>a\<leftarrow>candNotes. \<Sum>b\<leftarrow>candNotes.
        if vnum a < vnum b \<and> pitch a < pitch b then 1000 else 0)"

definition spacingPenaltyStated :: "Note list \<Rightarrow> int" where
  "spacingPenaltyStated candNotes =
     (\<Sum>a\<leftarrow>candNotes. \<Sum>b\<leftarrow>candNotes.
        if voiceAdjacent candNotes a b \<and> \<bar>pitch a - pitch b\<bar> > 12 then 100 else 0)"

definition spacingPenalty :: "Note list \<Rightarrow> int" where
  "spacingPenalty candNotes =
     (\<Sum>a\<leftarrow>candNotes. \<Sum>b\<leftarrow>candNotes.
        if voiceAdjacent candNotes a b \<and> pitch a - pitch b > 12 then 100 else 0)"

definition parallelMotion :: "int \<Rightarrow> int \<Rightarrow> bool" where
  "parallelMotion prevInterval candInterval \<longleftrightarrow>
     (prevInterval mod 12 = 7 \<and> candInterval mod 12 = 7)
     \<or> (prevInterval mod 12 = 0 \<and> candInterval mod 12 = 0 \<and> prevInterval \<noteq> 0)"

definition parallelPenalty :: "Note list \<Rightarrow> Note list \<Rightarrow> int" where
  "parallelPenalty prevNotes candNotes =
     (\<Sum>v\<leftarrow>commonVoices prevNotes candNotes. \<Sum>w\<leftarrow>commonVoices prevNotes candNotes.
        if v < w \<and> parallelMotion \<bar>pitchOfVoice prevNotes v - pitchOfVoice prevNotes w\<bar>
                                   \<bar>pitchOfVoice candNotes v - pitchOfVoice candNotes w\<bar>
        then 500 else 0)"

definition movementTotal :: "Note list \<Rightarrow> Note list \<Rightarrow> int" where
  "movementTotal prevNotes candNotes =
     (\<Sum>v\<leftarrow>commonVoices prevNotes candNotes.
        2 * \<bar>pitchOfVoice prevNotes v - pitchOfVoice candNotes v\<bar>)"

definition statedCost :: "Note list \<Rightarrow> Note list \<Rightarrow> int" where
  "statedCost prevNotes candNotes =
     crossingPenalty candNotes + spacingPenaltyStated candNotes
     + parallelPenalty prevNotes candNotes + movementTotal prevNotes candNotes"

definition directedCost :: "Note list \<Rightarrow> Note list \<Rightarrow> int" where
  "directedCost prevNotes candNotes =
     crossingPenalty candNotes + spacingPenalty candNotes
     + parallelPenalty prevNotes candNotes + movementTotal prevNotes candNotes"

text \<open>A chord whose notes all carry a voice, no two the same.\<close>

definition voicedDistinct :: "Note list \<Rightarrow> bool" where
  "voicedDistinct ns \<longleftrightarrow> (\<forall>n \<in> set ns. voice n \<noteq> None) \<and> distinct (map voice ns)"

subsection \<open>Notes and chords of the examples\<close>

text \<open>
  A note as the caller builds it (\<open>{pitch, position, duration}\<close>, no voice), and a note on
  a voice, for the concrete inputs and outputs of the examples. \<open>scenarioMelody\<close> and
  \<open>scenarioHarmony\<close> are the two chords of Scenario B of the specification;
  \<open>wideHarmony\<close> is a harmony far from that melody.
\<close>

definition inputNote :: "int \<Rightarrow> int \<Rightarrow> int \<Rightarrow> Note" where
  "inputNote p pos dur = \<lparr>pitch = p, position = pos, duration = dur, voice = None\<rparr>"

definition voicedNote :: "int \<Rightarrow> int \<Rightarrow> int \<Rightarrow> int \<Rightarrow> Note" where
  "voicedNote p pos dur v = \<lparr>pitch = p, position = pos, duration = dur, voice = Some v\<rparr>"

definition scenarioMelody :: "Note list" where
  "scenarioMelody = [inputNote 72 0 8, inputNote 74 8 8]"

definition scenarioHarmony :: "Note list" where
  "scenarioHarmony = [inputNote 67 0 8, inputNote 64 0 8, inputNote 60 0 8,
                      inputNote 69 8 8, inputNote 65 8 8, inputNote 57 8 8]"

definition wideHarmony :: "Note list" where
  "wideHarmony = [inputNote 50 0 8, inputNote 88 8 8, inputNote 40 8 8]"

definition chordOf :: "int \<Rightarrow> Note list \<Rightarrow> Chord" where
  "chordOf pos ns = \<lparr>chord_position = pos, chord_notes = ns, chord_duration = None\<rparr>"

section \<open>Claims settled by running the optimizer\<close>

text \<open>
  C4. The claim: \<open>optimizeVoiceLeading\<close> raises no error, and on empty melody and harmony
  it returns the empty note list. The code: the chord sequence is empty, \<open>chords[0]\<close> is
  \<open>undefined\<close>, and \<open>assignVoicesToFirstChord\<close> raises a \<open>TypeError\<close> on reading its
  notes.
\<close>

theorem optimizeVoiceLeading_empty_raises:
  "optimizeVoiceLeading [] [] = Inl TypeError"
  by code_simp

text \<open>
  C1. The claim: a melody note keeps voice 0 and its pitch. The code: in a chord after the
  first, \<open>calculateVoiceLeadingCost\<close> writes the candidate assignment onto the first
  notes of the chord, and the melody note is the first of them; it keeps the voice the
  last candidate gave it. With two melody notes over two harmony notes, the second melody
  note (pitch 74 at position 8) comes out on voice 1.
\<close>

theorem optimizeVoiceLeading_melody_voice_overwritten:
  "optimizeVoiceLeading [inputNote 72 0 8, inputNote 74 8 8] [inputNote 60 0 8, inputNote 62 8 8]
   = Inr [voicedNote 72 0 8 0, voicedNote 60 0 8 1, voicedNote 74 8 8 1, voicedNote 62 8 8 1]"
  by code_simp

text \<open>
  C7. The claim: no two notes of a chord share a voice index. The code: in the second
  chord of this input (melody 74 over harmony 69, 65, 57, after a four-note first chord)
  the melody note is left on voice 3 by the cost function's write, and the search gives
  voice 3 to the harmony note 57 as well; \<open>adjustOctaves\<close> then moves the melody note
  to pitch 62.
\<close>

theorem optimizeVoiceLeading_voice_shared:
  "optimizeVoiceLeading
     [inputNote 72 0 8, inputNote 74 8 8]
     [inputNote 67 0 8, inputNote 64 0 8, inputNote 60 0 8,
      inputNote 69 8 8, inputNote 65 8 8, inputNote 57 8 8]
   = Inr [voicedNote 72 0 8 0, voicedNote 67 0 8 1, voicedNote 64 0 8 2, voicedNote 60 0 8 3,
          voicedNote 69 8 8 1, voicedNote 65 8 8 2, voicedNote 62 8 8 3, voicedNote 57 8 8 3]"
  by code_simp

text \<open>
  C2. The claim: every candidate is scored with the cost model, and the candidate of least
  cost is committed, the first one on a tie. The code: the candidates are enumerated as
  claimed, but \<open>calculateVoiceLeadingCost\<close> writes the assignment onto the first notes of
  the chord before it computes, so for a chord that begins with a melody note the value it
  returns is not the cost of the candidate. In the second chord of this input (melody 74
  over harmony 57, 69, after 72 over 67, 60) the candidates are \<open>[1, 2]\<close> and \<open>[2, 1]\<close>,
  of cost 1142 and 14, by the loops of the code and by the terms of the specification
  alike; the values returned for them are 120 and 2048, and the code commits \<open>[1, 2]\<close>,
  which puts 57 on voice 1 under 69 on voice 2.
\<close>

theorem optimizeChordVoicing_commits_costlier_candidate:
  "generateVoiceAssignments (chordOf 8 [voicedNote 74 8 8 0, inputNote 57 8 8, inputNote 69 8 8]) 3
     = [[1, 2], [2, 1]]
   \<and> map (candidateCost (chordOf 0 [voicedNote 72 0 8 0, voicedNote 67 0 8 1, voicedNote 60 0 8 2])
                         (chordOf 8 [voicedNote 74 8 8 0, inputNote 57 8 8, inputNote 69 8 8]))
          [[1, 2], [2, 1]] = [1142, 14]
   \<and> statedCost [voicedNote 72 0 8 0, voicedNote 67 0 8 1, voicedNote 60 0 8 2]
                   [voicedNote 74 8 8 0, voicedNote 57 8 8 1, voicedNote 69 8 8 2] = 1142
   \<and> statedCost [voicedNote 72 0 8 0, voicedNote 67 0 8 1, voicedNote 60 0 8 2]
                   [voicedNote 74 8 8 0, voicedNote 57 8 8 2, voicedNote 69 8 8 1] = 14
   \<and> map (scoreOf (chordOf 0 [voicedNote 72 0 8 0, voicedNote 67 0 8 1, voicedNote 60 0 8 2])
                   (chordOf 8 [voicedNote 74 8 8 0, inputNote 57 8 8, inputNote 69 8 8]))
          [[1, 2], [2, 1]] = [120, 2048]
   \<and> commitBest (chordOf 0 [voicedNote 72 0 8 0, voicedNote 67 0 8 1, voicedNote 60 0 8 2])
                 (chordOf 8 [voicedNote 74 8 8 0, inputNote 57 8 8, inputNote 69 8 8]) 3
       = Inr (chordOf 8 [voicedNote 74 8 8 2, voicedNote 57 8 8 1, voicedNote 69 8 8 2])
   \<and> optimizeVoiceLeading
         [inputNote 72 0 8, inputNote 74 8 8]
         [inputNote 67 0 8, inputNote 60 0 8, inputNote 57 8 8, inputNote 69 8 8]
       = Inr [voicedNote 72 0 8 0, voicedNote 67 0 8 1, voicedNote 60 0 8 2,
              voicedNote 81 8 8 1, voicedNote 74 8 8 2, voicedNote 69 8 8 2]"
  by code_simp

text \<open>
  C3. The claim: the cost is the sum of four terms, of which the spacing term is 100 for
  each pair of voice-adjacent candidate notes whose pitches differ by more than 12
  semitones. The code: the spacing loop tests
  \<open>currentSorted[i].pitch - currentSorted[i + 1].pitch > 12\<close>, without the absolute value
  that its comment (voices more than an octave apart) and the interval and movement
  computations below it have, so a pair whose note on the lower voice index is more than
  an octave below the other is not charged. With 72, 60 on voices 0, 1 before and 60, 80
  on voices 0, 1 as the candidate, the four stated terms are 1000, 100, 0 and 64, and the
  code returns 1064.
\<close>

theorem calculateVoiceLeadingCost_spacing_one_sided:
  "calculateVoiceLeadingCost
       (chordOf 0 [voicedNote 72 0 8 0, voicedNote 60 0 8 1])
       (chordOf 8 [inputNote 60 8 8, inputNote 80 8 8]) [0, 1]
     = Inr (1064, chordOf 8 [voicedNote 60 8 8 0, voicedNote 80 8 8 1])
   \<and> crossingPenalty [voicedNote 60 8 8 0, voicedNote 80 8 8 1] = 1000
   \<and> spacingPenaltyStated [voicedNote 60 8 8 0, voicedNote 80 8 8 1] = 100
   \<and> parallelPenalty [voicedNote 72 0 8 0, voicedNote 60 0 8 1]
                      [voicedNote 60 8 8 0, voicedNote 80 8 8 1] = 0
   \<and> movementTotal [voicedNote 72 0 8 0, voicedNote 60 0 8 1]
                     [voicedNote 60 8 8 0, voicedNote 80 8 8 1] = 64
   \<and> statedCost [voicedNote 72 0 8 0, voicedNote 60 0 8 1]
                 [voicedNote 60 8 8 0, voicedNote 80 8 8 1] = 1164"
  by code_simp

section \<open>generatePermutations\<close>

lemma backtrack_start: "backtrack array k start current = backtrack array k start' current"
  by (subst backtrack.simps, subst (2) backtrack.simps) (rule refl)

lemma backtrack_prefix:
  "xs \<in> set (backtrack array k start current) \<Longrightarrow> \<exists>ys. xs = current @ ys"
proof (induction array k start current arbitrary: xs rule: backtrack.induct)
  case (1 array k start current)
  show ?case
  proof (cases "length current = k")
    case True
    with "1.prems" show ?thesis by (subst (asm) backtrack.simps) simp
  next
    case False
    from "1.prems" False obtain i where i: "i \<in> set [0..<length array]" "array ! i \<notin> set current"
      and mem: "xs \<in> set (backtrack array k (i + 1) (current @ [array ! i]))"
      by (subst (asm) backtrack.simps) (auto split: if_splits)
    from "1.IH"[OF False i mem] show ?thesis by auto
  qed
qed

lemma backtrack_set:
  "distinct current \<Longrightarrow> length current \<le> k \<Longrightarrow>
   set (backtrack array k start current) =
     {current @ ys | ys. length (current @ ys) = k \<and> distinct (current @ ys) \<and> set ys \<subseteq> set array}"
proof (induction array k start current rule: backtrack.induct)
  case (1 array k start current)
  show ?case
  proof (cases "length current = k")
    case True
    then show ?thesis using "1.prems" by (subst backtrack.simps) auto
  next
    case False
    have IH: "\<And>i. i < length array \<Longrightarrow> array ! i \<notin> set current \<Longrightarrow>
       set (backtrack array k (i + 1) (current @ [array ! i])) =
       {(current @ [array ! i]) @ ys | ys. length ((current @ [array ! i]) @ ys) = k
          \<and> distinct ((current @ [array ! i]) @ ys) \<and> set ys \<subseteq> set array}"
      using "1.IH"[OF False] "1.prems" False by simp
    have "set (backtrack array k start current) =
       (\<Union>i \<in> {i. i < length array \<and> array ! i \<notin> set current}.
           set (backtrack array k (i + 1) (current @ [array ! i])))"
      using False by (subst backtrack.simps) auto
    also have "\<dots> = (\<Union>i \<in> {i. i < length array \<and> array ! i \<notin> set current}.
         {(current @ [array ! i]) @ ys | ys. length ((current @ [array ! i]) @ ys) = k
          \<and> distinct ((current @ [array ! i]) @ ys) \<and> set ys \<subseteq> set array})"
      using IH by simp
    also have "\<dots> = {current @ ys | ys. length (current @ ys) = k \<and> distinct (current @ ys) \<and> set ys \<subseteq> set array}"
      (is "?L = ?R")
    proof (intro set_eqI iffI)
      fix zs assume "zs \<in> ?L"
      then obtain i ys where i: "i < length array" "array ! i \<notin> set current"
        and zs: "zs = (current @ [array ! i]) @ ys" "length ((current @ [array ! i]) @ ys) = k"
          "distinct ((current @ [array ! i]) @ ys)" "set ys \<subseteq> set array"
        by auto
      show "zs \<in> ?R"
        apply (rule CollectI)
        apply (rule exI[of _ "array ! i # ys"])
        using i zs by auto
    next
      fix zs assume "zs \<in> ?R"
      then obtain ys where zs: "zs = current @ ys" "length (current @ ys) = k"
        "distinct (current @ ys)" "set ys \<subseteq> set array" by auto
      with False "1.prems" obtain y ys' where ys: "ys = y # ys'" by (cases ys) auto
      with zs obtain i where i: "i < length array" "array ! i = y"
        by (auto simp: in_set_conv_nth)
      have "y \<notin> set current" using zs ys by auto
      then show "zs \<in> ?L" using i zs ys by auto
    qed
    finally show ?thesis .
  qed
qed


lemma distinct_concat_map:
  "distinct is \<Longrightarrow> (\<And>i. i \<in> set is \<Longrightarrow> distinct (f i)) \<Longrightarrow>
   (\<And>i j. i \<in> set is \<Longrightarrow> j \<in> set is \<Longrightarrow> i \<noteq> j \<Longrightarrow> set (f i) \<inter> set (f j) = {}) \<Longrightarrow>
   distinct (concat (map f is))"
proof (induction "is")
  case Nil
  then show ?case by simp
next
  case (Cons i "is")
  have "distinct (concat (map f is))"
    using Cons by simp
  moreover have "distinct (f i)" using Cons.prems(2) by simp
  moreover have "set (f i) \<inter> (\<Union>j\<in>set is. set (f j)) = {}"
  proof -
    have "\<And>j. j \<in> set is \<Longrightarrow> set (f i) \<inter> set (f j) = {}"
      using Cons.prems(1,3) by auto
    then show ?thesis by blast
  qed
  ultimately show ?case by simp
qed

lemma sorted_wrt_concat_map:
  "sorted_wrt Q is \<Longrightarrow> (\<And>i. i \<in> set is \<Longrightarrow> sorted_wrt R (f i)) \<Longrightarrow>
   (\<And>i j x y. Q i j \<Longrightarrow> i \<in> set is \<Longrightarrow> j \<in> set is \<Longrightarrow> x \<in> set (f i) \<Longrightarrow> y \<in> set (f j) \<Longrightarrow> R x y) \<Longrightarrow>
   sorted_wrt R (concat (map f is))"
proof (induction "is")
  case Nil
  then show ?case by simp
next
  case (Cons i "is")
  have "sorted_wrt R (concat (map f is))"
    using Cons by simp
  moreover have "sorted_wrt R (f i)" using Cons.prems(2) by simp
  moreover have "\<forall>x\<in>set (f i). \<forall>y\<in>set (concat (map f is)). R x y"
    using Cons.prems(1,3) by auto
  ultimately show ?case by (simp add: sorted_wrt_append)
qed

lemma backtrack_distinct:
  "distinct array \<Longrightarrow> distinct (backtrack array k start current)"
proof (induction array k start current rule: backtrack.induct)
  case (1 array k start current)
  show ?case
  proof (cases "length current = k")
    case True
    then show ?thesis by (subst backtrack.simps) simp
  next
    case False
    let ?f = "\<lambda>i. if array ! i \<in> set current then []
                   else backtrack array k (i + 1) (current @ [array ! i])"
    have "distinct (concat (map ?f [0..<length array]))"
    proof (rule distinct_concat_map)
      show "distinct [0..<length array]" by simp
    next
      fix i assume "i \<in> set [0..<length array]"
      then show "distinct (?f i)" using "1.IH"[OF False] "1.prems" by simp
    next
      fix i j assume ij: "i \<in> set [0..<length array]" "j \<in> set [0..<length array]" "i \<noteq> j"
      then have ne: "array ! i \<noteq> array ! j"
        using "1.prems" by (simp add: nth_eq_iff_index_eq)
      show "set (?f i) \<inter> set (?f j) = {}"
      proof (rule ccontr)
        assume "set (?f i) \<inter> set (?f j) \<noteq> {}"
        then obtain xs where xi: "xs \<in> set (?f i)" and xj: "xs \<in> set (?f j)" by blast
        from xi obtain ys where "xs = (current @ [array ! i]) @ ys"
          using backtrack_prefix by (fastforce split: if_splits)
        moreover from xj obtain zs where "xs = (current @ [array ! j]) @ zs"
          using backtrack_prefix by (fastforce split: if_splits)
        ultimately show False using ne by simp
      qed
    qed
    then show ?thesis using False by (subst backtrack.simps) simp
  qed
qed

lemma backtrack_sorted:
  "sorted_wrt (\<lambda>xs ys. (xs, ys) \<in> lexord {(x, y). \<exists>i j. i < j \<and> j < length array \<and> array ! i = x \<and> array ! j = y})
     (backtrack array k start current)"
proof (induction array k start current rule: backtrack.induct)
  case (1 array k start current)
  let ?r = "{(x, y). \<exists>i j. i < j \<and> j < length array \<and> array ! i = x \<and> array ! j = y}"
  show ?case
  proof (cases "length current = k")
    case True
    then show ?thesis by (subst backtrack.simps) simp
  next
    case False
    let ?f = "\<lambda>i. if array ! i \<in> set current then []
                   else backtrack array k (i + 1) (current @ [array ! i])"
    have "sorted_wrt (\<lambda>xs ys. (xs, ys) \<in> lexord ?r) (concat (map ?f [0..<length array]))"
    proof (rule sorted_wrt_concat_map[where Q = "(<)"])
      show "sorted_wrt (<) [0..<length array]" by simp
    next
      fix i assume "i \<in> set [0..<length array]"
      then show "sorted_wrt (\<lambda>xs ys. (xs, ys) \<in> lexord ?r) (?f i)"
        using "1.IH"[OF False] by simp
    next
      fix i j xs ys
      assume ij: "i < j" "i \<in> set [0..<length array]" "j \<in> set [0..<length array]"
        and xi: "xs \<in> set (?f i)" and yj: "ys \<in> set (?f j)"
      from xi obtain xs' where xs: "xs = current @ array ! i # xs'"
        using backtrack_prefix by (fastforce split: if_splits)
      from yj obtain ys' where ys: "ys = current @ array ! j # ys'"
        using backtrack_prefix by (fastforce split: if_splits)
      have "(array ! i, array ! j) \<in> ?r" using ij by auto
      then show "(xs, ys) \<in> lexord ?r"
        unfolding xs ys lexord_def by blast
    qed
    then show ?thesis using False by (subst backtrack.simps) simp
  qed
qed

text \<open>
  C9. For a list \<open>array\<close> of pairwise distinct integers, \<open>generatePermutations array k\<close>
  holds exactly the sequences of length \<open>k\<close> of distinct elements of \<open>array\<close>, each once,
  in the lexicographic order of the elements' positions in \<open>array\<close>: of two results, the
  earlier one has, where they first differ, the element that comes first in \<open>array\<close>.
  The parameter \<open>start\<close> of \<open>backtrack\<close> has no effect on what is enumerated.
\<close>

theorem generatePermutations_enumerates:
  assumes "distinct array"
  shows "set (generatePermutations array k) = {xs. length xs = k \<and> distinct xs \<and> set xs \<subseteq> set array}
     \<and> distinct (generatePermutations array k)
     \<and> sorted_wrt (\<lambda>xs ys. (xs, ys) \<in> lexord {(x, y). \<exists>i j. i < j \<and> j < length array \<and> array ! i = x \<and> array ! j = y})
          (generatePermutations array k)
     \<and> (\<forall>start. backtrack array k start [] = generatePermutations array k)"
proof -
  have "set (generatePermutations array k) = {xs. length xs = k \<and> distinct xs \<and> set xs \<subseteq> set array}"
    unfolding generatePermutations_def using backtrack_set[of "[]" k array 0] by simp
  moreover have "distinct (generatePermutations array k)"
    unfolding generatePermutations_def using assms by (rule backtrack_distinct)
  moreover have "sorted_wrt (\<lambda>xs ys. (xs, ys) \<in> lexord {(x, y). \<exists>i j. i < j \<and> j < length array \<and> array ! i = x \<and> array ! j = y})
          (generatePermutations array k)"
    unfolding generatePermutations_def by (rule backtrack_sorted)
  moreover have "\<forall>start. backtrack array k start [] = generatePermutations array k"
    unfolding generatePermutations_def using backtrack_start by blast
  ultimately show ?thesis by blast
qed

theorem generatePermutations_enumerates_witness:
  "distinct [1, 2, 3 :: int]
   \<and> generatePermutations [1, 2, 3] 2 = [[1, 2], [1, 3], [2, 1], [2, 3], [3, 1], [3, 2]]
   \<and> set (generatePermutations [1, 2, 3] 2) = {xs. length xs = 2 \<and> distinct xs \<and> set xs \<subseteq> set [1, 2, 3]}
   \<and> distinct (generatePermutations [1, 2, 3] 2)
   \<and> backtrack [1, 2, 3] 2 7 [] = generatePermutations [1, 2, 3] 2"
proof -
  have d: "distinct [1, 2, 3 :: int]" by simp
  have e: "generatePermutations [1, 2, 3] 2 = [[1, 2], [1, 3], [2, 1], [2, 3], [3, 1], [3, 2]]"
    by code_simp
  from generatePermutations_enumerates[OF d, of 2] d e show ?thesis by blast
qed

section \<open>adjustHarmonyOctaveRelativeToMelody\<close>

lemma isHarmony_shiftNote [simp]: "isHarmony (shiftNote a n) = isHarmony n"
  by (simp add: shiftNote_def isHarmony_def)

lemma isMelody_shiftNote [simp]: "isMelody (shiftNote a n) = isMelody n"
  by (simp add: shiftNote_def isMelody_def)

lemma pitch_shiftNote: "pitch (shiftNote a n) = (if isHarmony n then pitch n + a else pitch n)"
  by (simp add: shiftNote_def)

lemma flatten_shiftHarmony:
  "flattenChordsToNotes (map (shiftHarmony a) chords) = map (shiftNote a) (flattenChordsToNotes chords)"
  by (induction chords) (simp_all add: flattenChordsToNotes_def shiftHarmony_def)

lemma shiftNote_melody: "isMelody n \<Longrightarrow> shiftNote a n = n"
  by (simp add: shiftNote_def isMelody_def isHarmony_def)

lemma filter_isMelody_shift:
  "filter isMelody (map (shiftNote a) ns) = filter isMelody ns"
  by (induction ns) (simp_all add: shiftNote_melody)

lemma pitch_filter_isHarmony_shift:
  "map pitch (filter isHarmony (map (shiftNote a) ns)) = map (\<lambda>p. p + a) (map pitch (filter isHarmony ns))"
  by (induction ns) (simp_all add: pitch_shiftNote)

lemma Max_shift:
  fixes xs :: "int list"
  assumes "xs \<noteq> []"
  shows "Max (set (map (\<lambda>p. p + a) xs)) = Max (set xs) + a"
proof -
  have "mono (\<lambda>p::int. p + a)" by (simp add: mono_def)
  then have "Max (set xs) + a = Max ((\<lambda>p. p + a) ` set xs)"
    using assms by (intro mono_Max_commute) auto
  then show ?thesis by simp
qed

lemma octave_gap_bound:
  fixes gap :: int
  assumes "gap > 12"
  shows "gap - 12 * ((gap - 1) div 12) \<le> 12" "1 \<le> gap - 12 * ((gap - 1) div 12)" "(gap - 1) div 12 * 12 > 0"
  using assms by presburger+

text \<open>
  C8. With \<open>gap\<close> the lowest pitch of the notes on voice 0 minus the highest pitch of the
  harmony notes (the notes that carry a voice other than 0) of the whole piece: when both
  kinds exist and \<open>gap > 12\<close>, every harmony note is raised by \<open>12 * floor((gap - 1) / 12)\<close>
  and nothing else changes, and the gap of the result is at most 12; in every other case
  the chords are returned as they are.
\<close>

theorem adjustHarmonyOctaveRelativeToMelody_spec:
  fixes chords :: "Chord list"
  defines "ns \<equiv> flattenChordsToNotes chords"
  defines "gap \<equiv> Min (set (map pitch (filter isMelody ns))) - Max (set (map pitch (filter isHarmony ns)))"
  defines "out \<equiv> flattenChordsToNotes (adjustHarmonyOctaveRelativeToMelody chords)"
  shows "(filter isMelody ns \<noteq> [] \<and> filter isHarmony ns \<noteq> [] \<and> gap > 12 \<longrightarrow>
           adjustHarmonyOctaveRelativeToMelody chords =
             map (\<lambda>c. c\<lparr>chord_notes :=
                     map (\<lambda>n. if isHarmony n then n\<lparr>pitch := pitch n + 12 * ((gap - 1) div 12)\<rparr> else n)
                       (chord_notes c)\<rparr>) chords
           \<and> Min (set (map pitch (filter isMelody out))) - Max (set (map pitch (filter isHarmony out))) \<le> 12)
       \<and> (\<not> (filter isMelody ns \<noteq> [] \<and> filter isHarmony ns \<noteq> [] \<and> gap > 12) \<longrightarrow>
           adjustHarmonyOctaveRelativeToMelody chords = chords)"
proof (intro conjI impI)
  assume a: "filter isMelody ns \<noteq> [] \<and> filter isHarmony ns \<noteq> [] \<and> gap > 12"
  let ?adj = "(gap - 1) div 12 * 12"
  have pos: "?adj > 0" using a octave_gap_bound(3) by blast
  have res: "adjustHarmonyOctaveRelativeToMelody chords = map (shiftHarmony ?adj) chords"
    using a pos unfolding adjustHarmonyOctaveRelativeToMelody_def ns_def gap_def
    by (simp add: Let_def)
  have sh: "shiftHarmony ?adj = (\<lambda>c. c\<lparr>chord_notes :=
                     map (\<lambda>n. if isHarmony n then n\<lparr>pitch := pitch n + 12 * ((gap - 1) div 12)\<rparr> else n)
                       (chord_notes c)\<rparr>)"
    by (rule ext) (simp add: shiftHarmony_def shiftNote_def mult.commute)
  show "adjustHarmonyOctaveRelativeToMelody chords =
             map (\<lambda>c. c\<lparr>chord_notes :=
                     map (\<lambda>n. if isHarmony n then n\<lparr>pitch := pitch n + 12 * ((gap - 1) div 12)\<rparr> else n)
                       (chord_notes c)\<rparr>) chords"
    using res sh by simp
  have out: "out = map (shiftNote ?adj) ns"
    unfolding out_def res ns_def by (rule flatten_shiftHarmony)
  have m: "filter isMelody out = filter isMelody ns"
    unfolding out by (rule filter_isMelody_shift)
  have h: "map pitch (filter isHarmony out) = map (\<lambda>p. p + ?adj) (map pitch (filter isHarmony ns))"
    unfolding out by (rule pitch_filter_isHarmony_shift)
  have ne: "map pitch (filter isHarmony ns) \<noteq> []" using a by simp
  have "Max (set (map pitch (filter isHarmony out))) = Max (set (map pitch (filter isHarmony ns))) + ?adj"
    unfolding h using Max_shift[OF ne] .
  then have "Min (set (map pitch (filter isMelody out))) - Max (set (map pitch (filter isHarmony out)))
      = gap - 12 * ((gap - 1) div 12)"
    unfolding m gap_def by simp
  then show "Min (set (map pitch (filter isMelody out))) - Max (set (map pitch (filter isHarmony out))) \<le> 12"
    using octave_gap_bound(1) a by simp
next
  assume "\<not> (filter isMelody ns \<noteq> [] \<and> filter isHarmony ns \<noteq> [] \<and> gap > 12)"
  then show "adjustHarmonyOctaveRelativeToMelody chords = chords"
    unfolding adjustHarmonyOctaveRelativeToMelody_def ns_def gap_def
    by (auto simp: Let_def)
qed


theorem adjustHarmonyOctaveRelativeToMelody_spec_witness:
  "adjustHarmonyOctaveRelativeToMelody
     [chordOf 0 [voicedNote 72 0 8 0, voicedNote 40 0 8 1, voicedNote 36 0 8 2]]
   = [chordOf 0 [voicedNote 72 0 8 0, voicedNote 64 0 8 1, voicedNote 60 0 8 2]]"
  using adjustHarmonyOctaveRelativeToMelody_spec
    [of "[chordOf 0 [voicedNote 72 0 8 0, voicedNote 40 0 8 1, voicedNote 36 0 8 2]]"]
  by (simp add: flattenChordsToNotes_def isMelody_def isHarmony_def chordOf_def voicedNote_def)

section \<open>The writes of the search\<close>

text \<open>The voice a note at index \<open>j\<close> is left with by \<open>setVoicesAt us a\<close>: the last write wins.\<close>

lemma map_update_same:
  assumes "\<And>x. f (g x) = f x"
  shows "map f (ns[u := g (ns ! u)]) = map f ns"
proof (cases "u < length ns")
  case True
  then show ?thesis by (simp add: map_update assms list_update_same_conv)
next
  case False
  then have "ns[u := g (ns ! u)] = ns" by (intro list_update_beyond) simp
  then show ?thesis by simp
qed

lemma length_setVoicesAt [simp]: "length (setVoicesAt us a ns) = length ns"
  by (induction us arbitrary: a ns) simp_all

lemma map_setVoicesAt:
  assumes "\<And>n v. f (n\<lparr>voice := v\<rparr>) = f n"
  shows "map f (setVoicesAt us a ns) = map f ns"
proof (induction us arbitrary: a ns)
  case Nil
  show ?case by simp
next
  case (Cons u us)
  have "map f (ns[u := (ns ! u)\<lparr>voice := (case a of [] \<Rightarrow> None | v # _ \<Rightarrow> Some v)\<rparr>]) = map f ns"
    by (rule map_update_same) (rule assms)
  then show ?case using Cons.IH by simp
qed

lemma nth_setVoicesAt_other:
  "j \<notin> set us \<Longrightarrow> setVoicesAt us a ns ! j = ns ! j"
  by (induction us arbitrary: a ns) auto

lemma nth_setVoicesAt_mem:
  "j \<in> set us \<Longrightarrow> j < length ns \<Longrightarrow> \<exists>w. \<forall>ns'. length ns' = length ns \<longrightarrow>
      setVoicesAt us a ns' ! j = (ns' ! j)\<lparr>voice := w\<rparr>"
proof (induction us arbitrary: a ns)
  case Nil
  then show ?case by simp
next
  case (Cons u us)
  show ?case
  proof (cases "j \<in> set us")
    case True
    from Cons.IH[OF True Cons.prems(2), of "tl a"] obtain w where
      w: "\<And>ns'. length ns' = length ns \<Longrightarrow> setVoicesAt us (tl a) ns' ! j = (ns' ! j)\<lparr>voice := w\<rparr>"
      by blast
    show ?thesis
    proof (intro exI[of _ w] allI impI)
      fix ns' :: "Note list" assume l: "length ns' = length ns"
      let ?ns = "ns'[u := (ns' ! u)\<lparr>voice := (case a of [] \<Rightarrow> None | v # _ \<Rightarrow> Some v)\<rparr>]"
      have "setVoicesAt us (tl a) ?ns ! j = (?ns ! j)\<lparr>voice := w\<rparr>"
        using w[of ?ns] l by simp
      also have "\<dots> = (ns' ! j)\<lparr>voice := w\<rparr>"
        using Cons.prems(2) l by (cases "j = u") simp_all
      finally show "setVoicesAt (u # us) a ns' ! j = (ns' ! j)\<lparr>voice := w\<rparr>" by simp
    qed
  next
    case False
    with Cons.prems have ju: "j = u" by simp
    show ?thesis
    proof (intro exI[of _ "case a of [] \<Rightarrow> None | v # _ \<Rightarrow> Some v"] allI impI)
      fix ns' :: "Note list" assume l: "length ns' = length ns"
      show "setVoicesAt (u # us) a ns' ! j = (ns' ! j)\<lparr>voice := (case a of [] \<Rightarrow> None | v # _ \<Rightarrow> Some v)\<rparr>"
        using False ju Cons.prems(2) l by (simp add: nth_setVoicesAt_other)
    qed
  qed
qed

lemma nth_setVoicesAt_nth:
  "distinct us \<Longrightarrow> i < length us \<Longrightarrow> length us \<le> length a \<Longrightarrow> us ! i < length ns \<Longrightarrow>
   setVoicesAt us a ns ! (us ! i) = (ns ! (us ! i))\<lparr>voice := Some (a ! i)\<rparr>"
proof (induction us arbitrary: a ns i)
  case Nil
  then show ?case by simp
next
  case (Cons u us)
  from Cons.prems(3) obtain v a' where a: "a = v # a'" by (cases a) auto
  show ?case
  proof (cases i)
    case 0
    then show ?thesis using Cons.prems a by (simp add: nth_setVoicesAt_other)
  next
    case (Suc i')
    have ne: "us ! i' \<noteq> u" using Cons.prems(1,2) Suc by auto
    have "setVoicesAt us a' (ns[u := (ns ! u)\<lparr>voice := Some v\<rparr>]) ! (us ! i')
        = ((ns[u := (ns ! u)\<lparr>voice := Some v\<rparr>]) ! (us ! i'))\<lparr>voice := Some (a' ! i')\<rparr>"
      using Cons.prems Suc a by (intro Cons.IH) auto
    then show ?thesis using Suc a ne by simp
  qed
qed

lemma length_resetVoicesAt [simp]: "length (resetVoicesAt us ns) = length ns"
  unfolding resetVoicesAt_def by (induction us arbitrary: ns) simp_all

lemma nth_resetVoicesAt:
  "j < length ns \<Longrightarrow>
   resetVoicesAt us ns ! j = (if j \<in> set us then (ns ! j)\<lparr>voice := None\<rparr> else ns ! j)"
  unfolding resetVoicesAt_def
proof (induction us arbitrary: ns)
  case Nil
  then show ?case by simp
next
  case (Cons u us)
  let ?ns = "ns[u := (ns ! u)\<lparr>voice := None\<rparr>]"
  have "fold (\<lambda>u acc. acc[u := (acc ! u)\<lparr>voice := None\<rparr>]) us ?ns ! j
      = (if j \<in> set us then (?ns ! j)\<lparr>voice := None\<rparr> else ?ns ! j)"
    using Cons.prems by (intro Cons.IH) simp
  then show ?case using Cons.prems by (cases "j = u") simp_all
qed

lemma length_writeVoices [simp]: "length (writeVoices va ns) = length ns"
  by (simp add: writeVoices_def)

lemma nth_writeVoices:
  "j < length ns \<Longrightarrow>
   writeVoices va ns ! j = (if j < length va then (ns ! j)\<lparr>voice := Some (va ! j)\<rparr> else ns ! j)"
  by (simp add: writeVoices_def nth_append min_def)

lemma map_writeVoices:
  assumes "\<And>n v. f (n\<lparr>voice := v\<rparr>) = f n"
  shows "map f (writeVoices va ns) = map f ns"
proof (rule nth_equalityI)
  show "length (map f (writeVoices va ns)) = length (map f ns)" by simp
next
  fix j assume "j < length (map f (writeVoices va ns))"
  then show "map f (writeVoices va ns) ! j = map f ns ! j"
    by (simp add: nth_writeVoices assms)
qed

lemma map_resetVoicesAt:
  assumes "\<And>n v. f (n\<lparr>voice := v\<rparr>) = f n"
  shows "map f (resetVoicesAt us ns) = map f ns"
proof (rule nth_equalityI)
  show "length (map f (resetVoicesAt us ns)) = length (map f ns)" by simp
next
  fix j assume "j < length (map f (resetVoicesAt us ns))"
  then show "map f (resetVoicesAt us ns) ! j = map f ns ! j"
    by (simp add: nth_resetVoicesAt assms)
qed


lemma voice_update_cong:
  fixes x y :: Note
  assumes "x\<lparr>voice := None\<rparr> = y\<lparr>voice := None\<rparr>"
  shows "x\<lparr>voice := v\<rparr> = y\<lparr>voice := v\<rparr>"
proof -
  have "x\<lparr>voice := None\<rparr>\<lparr>voice := v\<rparr> = y\<lparr>voice := None\<rparr>\<lparr>voice := v\<rparr>"
    using assms by simp
  then show ?thesis by simp
qed

lemma unfixedIdx_mem: "j \<in> set (unfixedIdx ns) \<longleftrightarrow> j < length ns \<and> voice (ns ! j) = None"
  by (auto simp: unfixedIdx_def)

lemma distinct_unfixedIdx [simp]: "distinct (unfixedIdx ns)"
  by (simp add: unfixedIdx_def)

lemma unfixedIdx_filter: "map ((!) ns) (unfixedIdx ns) = filter (\<lambda>n. voice n = None) ns"
proof -
  have "filter (\<lambda>n. voice n = None) (map ((!) ns) [0..<length ns])
      = map ((!) ns) (filter ((\<lambda>n. voice n = None) \<circ> (!) ns) [0..<length ns])"
    by (rule filter_map)
  then show ?thesis by (simp add: unfixedIdx_def map_nth comp_def)
qed

lemma length_unfixedIdx: "length (unfixedIdx ns) = length (filter (\<lambda>n. voice n = None) ns)"
  using unfixedIdx_filter[of ns] by (metis length_map)

lemma length_unfixedIdx_le: "length (unfixedIdx ns) \<le> length ns"
  by (simp add: length_unfixedIdx)

lemma searchInv_refl: "searchInv k V ys ys"
  by (simp add: searchInv_def)

lemma candidate_state_independent:
  assumes inv: "searchInv (length a) V xs ys"
  shows "writeVoices a (setVoicesAt us a xs) = writeVoices a (setVoicesAt us a ys)"
proof (rule nth_equalityI)
  show "length (writeVoices a (setVoicesAt us a xs)) = length (writeVoices a (setVoicesAt us a ys))"
    using inv by (simp add: searchInv_def)
next
  fix j assume "j < length (writeVoices a (setVoicesAt us a xs))"
  then have j: "j < length ys" "j < length xs" using inv by (simp_all add: searchInv_def)
  have eqN: "(xs ! j)\<lparr>voice := None\<rparr> = (ys ! j)\<lparr>voice := None\<rparr>"
    and eqK: "length a \<le> j \<Longrightarrow> xs ! j = ys ! j"
    using inv j by (simp_all add: searchInv_def)
  have len: "length xs = length ys" using inv by (simp add: searchInv_def)
  show "writeVoices a (setVoicesAt us a xs) ! j = writeVoices a (setVoicesAt us a ys) ! j"
  proof (cases "j \<in> set us")
    case True
    from nth_setVoicesAt_mem[OF True j(1), of a] obtain w where
      w: "\<And>ns'. length ns' = length ys \<Longrightarrow> setVoicesAt us a ns' ! j = (ns' ! j)\<lparr>voice := w\<rparr>"
      by blast
    have sx: "setVoicesAt us a xs ! j = (xs ! j)\<lparr>voice := w\<rparr>" using w[of xs] len by simp
    have sy: "setVoicesAt us a ys ! j = (ys ! j)\<lparr>voice := w\<rparr>" using w[of ys] by simp
    show ?thesis
    proof (cases "j < length a")
      case True
      then show ?thesis using j sx sy voice_update_cong[OF eqN]
        by (simp add: nth_writeVoices)
    next
      case False
      then show ?thesis using j sx sy eqK by (simp add: nth_writeVoices)
    qed
  next
    case False
    show ?thesis
    proof (cases "j < length a")
      case True
      then show ?thesis using j False voice_update_cong[OF eqN]
        by (simp add: nth_writeVoices nth_setVoicesAt_other)
    next
      case False
      then show ?thesis using j \<open>j \<notin> set us\<close> eqK
        by (simp add: nth_writeVoices nth_setVoicesAt_other)
    qed
  qed
qed

lemma searchInv_after_reset:
  assumes a: "set a \<subseteq> V"
  shows "searchInv (length a) V (resetVoicesAt (unfixedIdx ys) (writeVoices a (setVoicesAt (unfixedIdx ys) a ys))) ys"
  unfolding searchInv_def
proof (intro conjI allI impI)
  show "length (resetVoicesAt (unfixedIdx ys) (writeVoices a (setVoicesAt (unfixedIdx ys) a ys))) = length ys"
    by simp
next
  fix j assume j: "j < length ys"
  let ?us = "unfixedIdx ys"
  let ?S = "setVoicesAt ?us a ys"
  let ?C = "writeVoices a ?S"
  let ?R = "resetVoicesAt ?us ?C"
  have R: "?R ! j = (if j \<in> set ?us then (?C ! j)\<lparr>voice := None\<rparr> else ?C ! j)"
    using j by (simp add: nth_resetVoicesAt)
  have C: "?C ! j = (if j < length a then (?S ! j)\<lparr>voice := Some (a ! j)\<rparr> else ?S ! j)"
    using j by (simp add: nth_writeVoices)
  have S: "\<exists>w. ?S ! j = (if j \<in> set ?us then (ys ! j)\<lparr>voice := w\<rparr> else ys ! j)"
  proof (cases "j \<in> set ?us")
    case True
    from nth_setVoicesAt_mem[OF True j, of a] show ?thesis using True by auto
  next
    case False
    then show ?thesis by (simp add: nth_setVoicesAt_other)
  qed
  then obtain w where S': "?S ! j = (if j \<in> set ?us then (ys ! j)\<lparr>voice := w\<rparr> else ys ! j)" ..
  show "(?R ! j)\<lparr>voice := None\<rparr> = (ys ! j)\<lparr>voice := None\<rparr>"
    by (simp add: R C S')
  show "?R ! j = ys ! j" if "length a \<le> j"
  proof (cases "j \<in> set ?us")
    case True
    then have "voice (ys ! j) = None" by (simp add: unfixedIdx_mem)
    then have "(ys ! j)\<lparr>voice := None\<rparr> = ys ! j" by (cases "ys ! j") simp
    then show ?thesis using True that by (simp add: R C S')
  next
    case False
    then show ?thesis using that by (simp add: R C S')
  qed
  show "voice (?R ! j) = voice (ys ! j) \<or> (\<exists>v\<in>V. voice (?R ! j) = Some v)"
  proof (cases "j \<in> set ?us")
    case True
    then have "voice (ys ! j) = None" by (simp add: unfixedIdx_mem)
    then show ?thesis using True by (simp add: R)
  next
    case False
    show ?thesis
    proof (cases "j < length a")
      case True
      then have "a ! j \<in> V" using a by auto
      then show ?thesis using True False by (simp add: R C S')
    next
      case False
      then show ?thesis using \<open>j \<notin> set ?us\<close> by (simp add: R C S')
    qed
  qed
qed


lemma calculateVoiceLeadingCost_ok:
  "length va \<le> length (chord_notes c) \<Longrightarrow>
   calculateVoiceLeadingCost prev c va =
     Inr (costOfNotes (chord_notes prev) (writeVoices va (chord_notes c)),
          c\<lparr>chord_notes := writeVoices va (chord_notes c)\<rparr>)"
  by (simp add: calculateVoiceLeadingCost_def Let_def)

text \<open>
  The loop of the search, from any state that satisfies the invariant: it raises no error,
  it keeps the invariant, and it ends on the first candidate of least score among those
  that improve on the cost it started with.
\<close>

lemma searchAssignments_run:
  fixes c0 :: Chord
  defines "ys \<equiv> chord_notes c0"
  defines "us \<equiv> unfixedIdx ys"
  assumes as: "\<forall>a \<in> set as. length a = length us \<and> set a \<subseteq> V"
    and inv: "searchInv (length us) V xs ys"
  shows "\<exists>xs' lo' be'.
      searchAssignments prev us as (c0\<lparr>chord_notes := xs\<rparr>, lo, be) = Inr (c0\<lparr>chord_notes := xs'\<rparr>, lo', be')
    \<and> searchInv (length us) V xs' ys
    \<and> ((lo' = lo \<and> be' = be \<and> (\<forall>a \<in> set as. \<not> improves (scoreOf prev c0 a) lo))
       \<or> (\<exists>pre b post. as = pre @ b # post \<and> be' = Some b \<and> lo' = Some (scoreOf prev c0 b)
             \<and> improves (scoreOf prev c0 b) lo
             \<and> (\<forall>a \<in> set pre. scoreOf prev c0 b < scoreOf prev c0 a)
             \<and> (\<forall>a \<in> set post. scoreOf prev c0 b \<le> scoreOf prev c0 a)))"
  using as inv
proof (induction as arbitrary: xs lo be)
  case Nil
  then show ?case by (intro exI[of _ xs] exI[of _ lo] exI[of _ be]) simp
next
  case (Cons a as)
  have la: "length a = length us" and aV: "set a \<subseteq> V" using Cons.prems(1) by simp_all
  have lx: "length xs = length ys" using Cons.prems(2) by (simp add: searchInv_def)
  have le: "length a \<le> length xs" using la lx by (simp add: us_def length_unfixedIdx_le)
  have cand: "writeVoices a (setVoicesAt us a xs) = candidateNotes c0 a"
    unfolding candidateNotes_def ys_def[symmetric] us_def[symmetric]
    using Cons.prems(2) la by (intro candidate_state_independent[where V = V]) simp
  let ?xs1 = "resetVoicesAt us (candidateNotes c0 a)"
  let ?lo1 = "if improves (scoreOf prev c0 a) lo then Some (scoreOf prev c0 a) else lo"
  let ?be1 = "if improves (scoreOf prev c0 a) lo then Some a else be"
  have step: "searchAssignments prev us (a # as) (c0\<lparr>chord_notes := xs\<rparr>, lo, be)
      = searchAssignments prev us as (c0\<lparr>chord_notes := ?xs1\<rparr>, ?lo1, ?be1)"
    using le cand by (simp add: calculateVoiceLeadingCost_ok scoreOf_def)
  have inv1: "searchInv (length us) V ?xs1 ys"
    using searchInv_after_reset[OF aV, of ys] la
    by (simp add: candidateNotes_def ys_def us_def)
  have as': "\<forall>a \<in> set as. length a = length us \<and> set a \<subseteq> V" using Cons.prems(1) by simp
  from Cons.IH[OF as' inv1, of ?lo1 ?be1]
  obtain xs' lo' be' where
    run: "searchAssignments prev us as (c0\<lparr>chord_notes := ?xs1\<rparr>, ?lo1, ?be1) = Inr (c0\<lparr>chord_notes := xs'\<rparr>, lo', be')"
    and inv': "searchInv (length us) V xs' ys"
    and res: "(lo' = ?lo1 \<and> be' = ?be1 \<and> (\<forall>a \<in> set as. \<not> improves (scoreOf prev c0 a) ?lo1))
       \<or> (\<exists>pre b post. as = pre @ b # post \<and> be' = Some b \<and> lo' = Some (scoreOf prev c0 b)
             \<and> improves (scoreOf prev c0 b) ?lo1
             \<and> (\<forall>a \<in> set pre. scoreOf prev c0 b < scoreOf prev c0 a)
             \<and> (\<forall>a \<in> set post. scoreOf prev c0 b \<le> scoreOf prev c0 a))"
    by blast
  have final: "(lo' = lo \<and> be' = be \<and> (\<forall>x \<in> set (a # as). \<not> improves (scoreOf prev c0 x) lo))
       \<or> (\<exists>pre b post. a # as = pre @ b # post \<and> be' = Some b \<and> lo' = Some (scoreOf prev c0 b)
             \<and> improves (scoreOf prev c0 b) lo
             \<and> (\<forall>x \<in> set pre. scoreOf prev c0 b < scoreOf prev c0 x)
             \<and> (\<forall>x \<in> set post. scoreOf prev c0 b \<le> scoreOf prev c0 x))"
  proof (cases "improves (scoreOf prev c0 a) lo")
    case True
    from res show ?thesis
    proof (elim disjE conjE exE)
      assume r: "lo' = ?lo1" "be' = ?be1" "\<forall>x \<in> set as. \<not> improves (scoreOf prev c0 x) ?lo1"
      have "a # as = [] @ a # as" by simp
      moreover have "\<forall>x \<in> set as. scoreOf prev c0 a \<le> scoreOf prev c0 x"
        using r(3) True by (auto simp: improves_def)
      ultimately show ?thesis using r True by (intro disjI2) (metis empty_iff list.set(1))
    next
      fix pre b post
      assume r: "as = pre @ b # post" "be' = Some b" "lo' = Some (scoreOf prev c0 b)"
        "improves (scoreOf prev c0 b) ?lo1"
        "\<forall>x \<in> set pre. scoreOf prev c0 b < scoreOf prev c0 x"
        "\<forall>x \<in> set post. scoreOf prev c0 b \<le> scoreOf prev c0 x"
      have lt: "scoreOf prev c0 b < scoreOf prev c0 a" using r(4) True by (simp add: improves_def)
      have imp: "improves (scoreOf prev c0 b) lo"
        using lt True by (auto simp: improves_def split: option.splits)
      have "a # as = (a # pre) @ b # post" using r(1) by simp
      moreover have "\<forall>x \<in> set (a # pre). scoreOf prev c0 b < scoreOf prev c0 x"
        using r(5) lt by simp
      ultimately show ?thesis using r(2,3,6) imp by blast
    qed
  next
    case False
    from res show ?thesis
    proof (elim disjE conjE exE)
      assume r: "lo' = ?lo1" "be' = ?be1" "\<forall>x \<in> set as. \<not> improves (scoreOf prev c0 x) ?lo1"
      then show ?thesis using False by simp
    next
      fix pre b post
      assume r: "as = pre @ b # post" "be' = Some b" "lo' = Some (scoreOf prev c0 b)"
        "improves (scoreOf prev c0 b) ?lo1"
        "\<forall>x \<in> set pre. scoreOf prev c0 b < scoreOf prev c0 x"
        "\<forall>x \<in> set post. scoreOf prev c0 b \<le> scoreOf prev c0 x"
      have imp: "improves (scoreOf prev c0 b) lo" using r(4) False by simp
      have lt: "scoreOf prev c0 b < scoreOf prev c0 a"
        using imp False by (auto simp: improves_def split: option.splits)
      have "a # as = (a # pre) @ b # post" using r(1) by simp
      moreover have "\<forall>x \<in> set (a # pre). scoreOf prev c0 b < scoreOf prev c0 x"
        using r(5) lt by simp
      ultimately show ?thesis using r(2,3,6) imp by blast
    qed
  qed
  show ?case using step run inv' final by (intro exI[of _ xs'] exI[of _ lo'] exI[of _ be']) simp
qed


section \<open>The candidates\<close>

lemma set_availableVoices:
  "set (availableVoices ns numVoices) =
     {v. 0 \<le> v \<and> v < int numVoices \<and> (\<forall>n \<in> set ns. voice n \<noteq> Some v)}"
proof (intro set_eqI iffI)
  fix v assume "v \<in> set (availableVoices ns numVoices)"
  then obtain i where i: "i < numVoices" "v = int i"
    and un: "Some v \<notin> voice ` {n \<in> set ns. voice n \<noteq> None}"
    by (auto simp: availableVoices_def)
  have "\<forall>n \<in> set ns. voice n \<noteq> Some v"
  proof
    fix n assume "n \<in> set ns"
    show "voice n \<noteq> Some v"
    proof
      assume "voice n = Some v"
      then have "Some v \<in> voice ` {n \<in> set ns. voice n \<noteq> None}"
        using \<open>n \<in> set ns\<close> by force
      then show False using un by simp
    qed
  qed
  then show "v \<in> {v. 0 \<le> v \<and> v < int numVoices \<and> (\<forall>n \<in> set ns. voice n \<noteq> Some v)}"
    using i by simp
next
  fix v assume "v \<in> {v. 0 \<le> v \<and> v < int numVoices \<and> (\<forall>n \<in> set ns. voice n \<noteq> Some v)}"
  then have v: "0 \<le> v" "v < int numVoices" "\<forall>n \<in> set ns. voice n \<noteq> Some v" by simp_all
  have "v = int (nat v)" "nat v < numVoices" using v by simp_all
  then have "v \<in> int ` {0..<numVoices}" by (metis atLeastLessThan_iff image_eqI le0)
  moreover have "Some v \<notin> voice ` {n \<in> set ns. voice n \<noteq> None}" using v(3) by force
  ultimately show "v \<in> set (availableVoices ns numVoices)"
    by (simp add: availableVoices_def)
qed

lemma distinct_availableVoices: "distinct (availableVoices ns numVoices)"
  by (simp add: availableVoices_def distinct_map)

lemma set_generateVoiceAssignments:
  "set (generateVoiceAssignments c numVoices) =
     {a. length a = length (unfixedIdx (chord_notes c)) \<and> distinct a
         \<and> set a \<subseteq> set (availableVoices (chord_notes c) numVoices)}"
  unfolding generateVoiceAssignments_def generatePermutations_def
  using backtrack_set[of "[]" "length (unfixedIdx (chord_notes c))" "availableVoices (chord_notes c) numVoices" 0]
  by simp

text \<open>A chord of at most \<open>numVoices\<close> notes leaves enough voices for its unfixed notes.\<close>

lemma length_availableVoices:
  assumes "length ns \<le> numVoices"
  shows "length (unfixedIdx ns) \<le> length (availableVoices ns numVoices)"
proof -
  let ?fixed = "filter (\<lambda>n. voice n \<noteq> None) ns"
  let ?used = "{v. Some v \<in> set (map voice ?fixed)}"
  let ?all = "map int [0..<numVoices]"
  have av: "availableVoices ns numVoices = filter (\<lambda>v. v \<notin> ?used) ?all"
    by (simp add: availableVoices_def)
  have "length (filter (\<lambda>v. v \<in> ?used) ?all) + length (filter (\<lambda>v. v \<notin> ?used) ?all) = length ?all"
    using sum_length_filter_compl[of "\<lambda>v. v \<in> ?used" ?all] by simp
  moreover have "length (filter (\<lambda>v. v \<in> ?used) ?all) \<le> length ?fixed"
  proof -
    have d: "distinct (filter (\<lambda>v. v \<in> ?used) ?all)" by (simp add: distinct_map)
    have "set (filter (\<lambda>v. v \<in> ?used) ?all) \<subseteq> ?used" by auto
    moreover have fin: "finite ?used"
    proof -
      have "?used \<subseteq> the ` set (map voice ?fixed)" by force
      then show ?thesis using finite_surj by blast
    qed
    ultimately have "card (set (filter (\<lambda>v. v \<in> ?used) ?all)) \<le> card ?used"
      by (intro card_mono)
    moreover have "card ?used \<le> card (set (map voice ?fixed))"
    proof -
      have "Some ` ?used \<subseteq> set (map voice ?fixed)" by auto
      then have "card (Some ` ?used) \<le> card (set (map voice ?fixed))"
        by (intro card_mono) auto
      then show ?thesis by (simp add: card_image)
    qed
    moreover have "card (set (map voice ?fixed)) \<le> length ?fixed"
      using card_length[of "map voice ?fixed"] by simp
    ultimately show ?thesis using distinct_card[OF d] by linarith
  qed
  moreover have "length ?fixed + length (unfixedIdx ns) = length ns"
    using sum_length_filter_compl[of "\<lambda>n. voice n \<noteq> None" ns]
    by (simp add: length_unfixedIdx)
  ultimately show ?thesis using assms av by simp
qed

lemma generateVoiceAssignments_nonempty:
  assumes "length (chord_notes c) \<le> numVoices"
  shows "generateVoiceAssignments c numVoices \<noteq> []"
proof -
  let ?av = "availableVoices (chord_notes c) numVoices"
  let ?k = "length (unfixedIdx (chord_notes c))"
  have k: "?k \<le> length ?av" using assms by (rule length_availableVoices)
  have "take ?k ?av \<in> set (generateVoiceAssignments c numVoices)"
    unfolding set_generateVoiceAssignments
    using k distinct_availableVoices[of "chord_notes c" numVoices]
    by (auto dest: in_set_takeD)
  then show ?thesis by auto
qed


section \<open>The committed assignment\<close>

lemma commitBest_run:
  fixes cur :: Chord and numVoices :: nat
  defines "ys \<equiv> chord_notes cur"
  defines "us \<equiv> unfixedIdx ys"
  defines "cands \<equiv> generateVoiceAssignments cur numVoices"
  defines "V \<equiv> set (availableVoices ys numVoices)"
  shows "\<exists>xs'. searchInv (length us) V xs' ys \<and>
     ((cands = [] \<and> commitBest prev cur numVoices = Inr (cur\<lparr>chord_notes := xs'\<rparr>))
      \<or> (\<exists>pre best post. cands = pre @ best # post
            \<and> commitBest prev cur numVoices = Inr (cur\<lparr>chord_notes := setVoicesAt us best xs'\<rparr>)
            \<and> (\<forall>a \<in> set pre. scoreOf prev cur best < scoreOf prev cur a)
            \<and> (\<forall>a \<in> set post. scoreOf prev cur best \<le> scoreOf prev cur a)))"
proof -
  have cs: "\<forall>a \<in> set cands. length a = length us \<and> set a \<subseteq> V"
    unfolding cands_def set_generateVoiceAssignments us_def ys_def V_def by simp
  have curid: "cur\<lparr>chord_notes := ys\<rparr> = cur" by (simp add: ys_def)
  have cs': "\<forall>a \<in> set cands. length a = length (unfixedIdx (chord_notes cur)) \<and> set a \<subseteq> V"
    using cs by (simp add: us_def ys_def)
  have inv0: "searchInv (length (unfixedIdx (chord_notes cur))) V (chord_notes cur) (chord_notes cur)"
    by (rule searchInv_refl)
  have curid': "cur\<lparr>chord_notes := chord_notes cur\<rparr> = cur" by simp
  from searchAssignments_run[OF cs' inv0, of prev None None, unfolded curid']
  obtain xs' lo' be' where
    run: "searchAssignments prev us cands (cur, None, None) = Inr (cur\<lparr>chord_notes := xs'\<rparr>, lo', be')"
    and inv: "searchInv (length us) V xs' ys"
    and res: "(lo' = None \<and> be' = None \<and> (\<forall>a \<in> set cands. \<not> improves (scoreOf prev cur a) None))
       \<or> (\<exists>pre b post. cands = pre @ b # post \<and> be' = Some b \<and> lo' = Some (scoreOf prev cur b)
             \<and> improves (scoreOf prev cur b) None
             \<and> (\<forall>a \<in> set pre. scoreOf prev cur b < scoreOf prev cur a)
             \<and> (\<forall>a \<in> set post. scoreOf prev cur b \<le> scoreOf prev cur a))"
    unfolding us_def ys_def by blast
  from res show ?thesis
  proof (elim disjE conjE exE)
    assume r: "lo' = None" "be' = None" "\<forall>a \<in> set cands. \<not> improves (scoreOf prev cur a) None"
    then have e: "cands = []" by (cases cands) (auto simp: improves_def)
    have "commitBest prev cur numVoices = Inr (cur\<lparr>chord_notes := xs'\<rparr>)"
      using run r unfolding commitBest_def cands_def us_def ys_def by (simp add: Let_def)
    then show ?thesis using inv e by blast
  next
    fix pre b post
    assume r: "cands = pre @ b # post" "be' = Some b"
      "\<forall>a \<in> set pre. scoreOf prev cur b < scoreOf prev cur a"
      "\<forall>a \<in> set post. scoreOf prev cur b \<le> scoreOf prev cur a"
    have "commitBest prev cur numVoices = Inr (cur\<lparr>chord_notes := setVoicesAt us b xs'\<rparr>)"
      using run r(2) unfolding commitBest_def cands_def us_def ys_def by (simp add: Let_def)
    then show ?thesis using inv r(1,3,4) by blast
  qed
qed

text \<open>
  What the search minimises. For a chord with at least one unfixed note and at most
  \<open>numVoices\<close> notes: the candidates are exactly the sequences of distinct available
  voices, one voice per unfixed note, the available voices being those of
  \<open>0 .. numVoices - 1\<close> that no note of the chord carries; the value the cost function
  returns for a candidate is \<open>scoreOf\<close>, the cost of the chord after the function's own
  write, which is \<open>candidateCost\<close> only when the write changes nothing; the assignment
  committed to the unfixed notes is the first candidate of least \<open>scoreOf\<close>; and
  \<open>optimizeChordVoicing\<close> returns the committed chord after \<open>adjustOctaves\<close>.
\<close>

lemma commitBest_first_least_score:
  fixes cur :: Chord and numVoices :: nat
  defines "us \<equiv> unfixedIdx (chord_notes cur)"
  defines "cands \<equiv> generateVoiceAssignments cur numVoices"
  assumes unfixed: "us \<noteq> []" and size: "length (chord_notes cur) \<le> numVoices"
  shows "set cands = {a. length a = length us \<and> distinct a
            \<and> set a \<subseteq> {v. 0 \<le> v \<and> v < int numVoices \<and> (\<forall>n \<in> set (chord_notes cur). voice n \<noteq> Some v)}}
     \<and> (\<forall>a \<in> set cands. \<exists>scored.
            calculateVoiceLeadingCost prev
              (cur\<lparr>chord_notes := setVoicesAt us a (chord_notes cur)\<rparr>) a
            = Inr (scoreOf prev cur a, scored))
     \<and> (\<exists>pre best post committed.
            cands = pre @ best # post
          \<and> (\<forall>a \<in> set pre. scoreOf prev cur best < scoreOf prev cur a)
          \<and> (\<forall>a \<in> set post. scoreOf prev cur best \<le> scoreOf prev cur a)
          \<and> commitBest prev cur numVoices = Inr committed
          \<and> optimizeChordVoicing prev cur numVoices = Inr (adjustOctaves committed)
          \<and> (\<forall>i < length us. voice (chord_notes committed ! (us ! i)) = Some (best ! i)))"
proof (intro conjI)
  show "set cands = {a. length a = length us \<and> distinct a
            \<and> set a \<subseteq> {v. 0 \<le> v \<and> v < int numVoices \<and> (\<forall>n \<in> set (chord_notes cur). voice n \<noteq> Some v)}}"
    unfolding cands_def us_def set_generateVoiceAssignments set_availableVoices ..
next
  show "\<forall>a \<in> set cands. \<exists>scored.
            calculateVoiceLeadingCost prev
              (cur\<lparr>chord_notes := setVoicesAt us a (chord_notes cur)\<rparr>) a
            = Inr (scoreOf prev cur a, scored)"
  proof
    fix a assume "a \<in> set cands"
    then have "length a = length us"
      unfolding cands_def us_def set_generateVoiceAssignments by simp
    then have "length a \<le> length (chord_notes cur)"
      unfolding us_def by (simp add: length_unfixedIdx_le)
    then show "\<exists>scored. calculateVoiceLeadingCost prev
              (cur\<lparr>chord_notes := setVoicesAt us a (chord_notes cur)\<rparr>) a
            = Inr (scoreOf prev cur a, scored)"
      by (simp add: calculateVoiceLeadingCost_ok scoreOf_def candidateNotes_def us_def)
  qed
next
  let ?ys = "chord_notes cur"
  let ?V = "set (availableVoices ?ys numVoices)"
  have ne: "cands \<noteq> []" unfolding cands_def using size by (rule generateVoiceAssignments_nonempty)
  from commitBest_run[of cur numVoices prev] ne
  obtain xs' pre best post where inv: "searchInv (length us) ?V xs' ?ys"
    and c: "cands = pre @ best # post"
    and run: "commitBest prev cur numVoices = Inr (cur\<lparr>chord_notes := setVoicesAt us best xs'\<rparr>)"
    and m: "\<forall>a \<in> set pre. scoreOf prev cur best < scoreOf prev cur a"
      "\<forall>a \<in> set post. scoreOf prev cur best \<le> scoreOf prev cur a"
    unfolding us_def cands_def by blast
  have lb: "length best = length us"
  proof -
    have "best \<in> set cands" using c by simp
    then show ?thesis unfolding cands_def us_def set_generateVoiceAssignments by simp
  qed
  have lx: "length xs' = length ?ys" using inv by (simp add: searchInv_def)
  have "\<forall>i < length us. voice (setVoicesAt us best xs' ! (us ! i)) = Some (best ! i)"
  proof (intro allI impI)
    fix i assume i: "i < length us"
    then have "us ! i \<in> set us" by simp
    then have "us ! i < length xs'" using lx by (simp add: us_def unfixedIdx_mem)
    then have "setVoicesAt us best xs' ! (us ! i) = (xs' ! (us ! i))\<lparr>voice := Some (best ! i)\<rparr>"
      using i lb by (intro nth_setVoicesAt_nth) (simp_all add: us_def)
    then show "voice (setVoicesAt us best xs' ! (us ! i)) = Some (best ! i)" by simp
  qed
  then show "\<exists>pre best post committed.
            cands = pre @ best # post
          \<and> (\<forall>a \<in> set pre. scoreOf prev cur best < scoreOf prev cur a)
          \<and> (\<forall>a \<in> set post. scoreOf prev cur best \<le> scoreOf prev cur a)
          \<and> commitBest prev cur numVoices = Inr committed
          \<and> optimizeChordVoicing prev cur numVoices = Inr (adjustOctaves committed)
          \<and> (\<forall>i < length us. voice (chord_notes committed ! (us ! i)) = Some (best ! i))"
    using c m run unfixed
    by (intro exI[of _ pre] exI[of _ best] exI[of _ post]
        exI[of _ "cur\<lparr>chord_notes := setVoicesAt us best xs'\<rparr>"])
       (simp add: optimizeChordVoicing_def us_def)
qed


lemma commitBest_first_least_score_example:
  "unfixedIdx (chord_notes (chordOf 8 [inputNote 65 8 8, inputNote 57 8 8])) = [0, 1]
   \<and> length (chord_notes (chordOf 8 [inputNote 65 8 8, inputNote 57 8 8])) \<le> 3
   \<and> generateVoiceAssignments (chordOf 8 [inputNote 65 8 8, inputNote 57 8 8]) 3
       = [[0, 1], [0, 2], [1, 0], [1, 2], [2, 0], [2, 1]]
   \<and> map (scoreOf (chordOf 0 [voicedNote 72 0 8 0, voicedNote 64 0 8 1, voicedNote 60 0 8 2])
                   (chordOf 8 [inputNote 65 8 8, inputNote 57 8 8]))
          (generateVoiceAssignments (chordOf 8 [inputNote 65 8 8, inputNote 57 8 8]) 3)
       = [28, 20, 1032, 8, 1040, 1024]
   \<and> commitBest (chordOf 0 [voicedNote 72 0 8 0, voicedNote 64 0 8 1, voicedNote 60 0 8 2])
                 (chordOf 8 [inputNote 65 8 8, inputNote 57 8 8]) 3
       = Inr (chordOf 8 [voicedNote 65 8 8 1, voicedNote 57 8 8 2])
   \<and> (\<exists>pre best post committed.
          generateVoiceAssignments (chordOf 8 [inputNote 65 8 8, inputNote 57 8 8]) 3
            = pre @ best # post
        \<and> (\<forall>a \<in> set pre.
              scoreOf (chordOf 0 [voicedNote 72 0 8 0, voicedNote 64 0 8 1, voicedNote 60 0 8 2])
                      (chordOf 8 [inputNote 65 8 8, inputNote 57 8 8]) best
              < scoreOf (chordOf 0 [voicedNote 72 0 8 0, voicedNote 64 0 8 1, voicedNote 60 0 8 2])
                        (chordOf 8 [inputNote 65 8 8, inputNote 57 8 8]) a)
        \<and> (\<forall>a \<in> set post.
              scoreOf (chordOf 0 [voicedNote 72 0 8 0, voicedNote 64 0 8 1, voicedNote 60 0 8 2])
                      (chordOf 8 [inputNote 65 8 8, inputNote 57 8 8]) best
              \<le> scoreOf (chordOf 0 [voicedNote 72 0 8 0, voicedNote 64 0 8 1, voicedNote 60 0 8 2])
                        (chordOf 8 [inputNote 65 8 8, inputNote 57 8 8]) a)
        \<and> commitBest (chordOf 0 [voicedNote 72 0 8 0, voicedNote 64 0 8 1, voicedNote 60 0 8 2])
                      (chordOf 8 [inputNote 65 8 8, inputNote 57 8 8]) 3 = Inr committed
        \<and> optimizeChordVoicing (chordOf 0 [voicedNote 72 0 8 0, voicedNote 64 0 8 1, voicedNote 60 0 8 2])
                      (chordOf 8 [inputNote 65 8 8, inputNote 57 8 8]) 3 = Inr (adjustOctaves committed)
        \<and> (\<forall>i < length (unfixedIdx (chord_notes (chordOf 8 [inputNote 65 8 8, inputNote 57 8 8]))).
              voice (chord_notes committed
                       ! (unfixedIdx (chord_notes (chordOf 8 [inputNote 65 8 8, inputNote 57 8 8])) ! i))
              = Some (best ! i)))"
proof -
  let ?prev = "chordOf 0 [voicedNote 72 0 8 0, voicedNote 64 0 8 1, voicedNote 60 0 8 2]"
  let ?cur = "chordOf 8 [inputNote 65 8 8, inputNote 57 8 8]"
  have u: "unfixedIdx (chord_notes ?cur) = [0, 1]"
    by code_simp
  have l: "length (chord_notes ?cur) \<le> 3"
    by (simp add: chordOf_def)
  have g: "generateVoiceAssignments ?cur 3 = [[0, 1], [0, 2], [1, 0], [1, 2], [2, 0], [2, 1]]"
    by code_simp
  have sc: "map (scoreOf ?prev ?cur) (generateVoiceAssignments ?cur 3) = [28, 20, 1032, 8, 1040, 1024]"
    by code_simp
  have c: "commitBest ?prev ?cur 3 = Inr (chordOf 8 [voicedNote 65 8 8 1, voicedNote 57 8 8 2])"
    by code_simp
  have ne: "unfixedIdx (chord_notes ?cur) \<noteq> []" using u by simp
  from commitBest_first_least_score[OF ne l, of ?prev] u l g sc c show ?thesis by blast
qed

text \<open>
  When the unfixed notes are the first notes of the chord (a chord with no melody note),
  the write of the cost function repeats the assignment and changes nothing: the value
  returned is the cost of the candidate.
\<close>

lemma scoreOf_candidateCost:
  assumes u: "unfixedIdx (chord_notes cur) = [0..<length a]"
  shows "scoreOf prev cur a = candidateCost prev cur a"
proof -
  let ?ns = "chord_notes cur"
  let ?k = "length a"
  have k: "?k \<le> length ?ns" using length_unfixedIdx_le[of ?ns] u by simp
  have "writeVoices a (setVoicesAt [0..<?k] a ?ns) = setVoicesAt [0..<?k] a ?ns"
  proof (rule nth_equalityI)
    show "length (writeVoices a (setVoicesAt [0..<?k] a ?ns)) = length (setVoicesAt [0..<?k] a ?ns)"
      by simp
  next
    fix j assume "j < length (writeVoices a (setVoicesAt [0..<?k] a ?ns))"
    then have j: "j < length ?ns" by simp
    show "writeVoices a (setVoicesAt [0..<?k] a ?ns) ! j = setVoicesAt [0..<?k] a ?ns ! j"
    proof (cases "j < ?k")
      case True
      have "setVoicesAt [0..<?k] a ?ns ! ([0..<?k] ! j) = (?ns ! ([0..<?k] ! j))\<lparr>voice := Some (a ! j)\<rparr>"
        using True j by (intro nth_setVoicesAt_nth) simp_all
      then have "setVoicesAt [0..<?k] a ?ns ! j = (?ns ! j)\<lparr>voice := Some (a ! j)\<rparr>"
        using True by simp
      then show ?thesis using True j by (simp add: nth_writeVoices)
    next
      case False
      then show ?thesis using j by (simp add: nth_writeVoices)
    qed
  qed
  then show ?thesis by (simp add: scoreOf_def candidateCost_def candidateNotes_def u)
qed

section \<open>What one chord keeps through its voicing\<close>

text \<open>
  The committed chord, note by note: pitch, position and duration are those of the chord
  the search started on; a voice is the one the note had or an available voice; and when
  there is a candidate at all, every note carries a voice.
\<close>

lemma commitBest_post:
  fixes cur :: Chord and numVoices :: nat
  defines "ys \<equiv> chord_notes cur"
  shows "\<exists>zs. commitBest prev cur numVoices = Inr (cur\<lparr>chord_notes := zs\<rparr>)
     \<and> length zs = length ys
     \<and> (\<forall>j < length ys. (zs ! j)\<lparr>voice := None\<rparr> = (ys ! j)\<lparr>voice := None\<rparr>
           \<and> (voice (zs ! j) = voice (ys ! j)
               \<or> (\<exists>v \<in> set (availableVoices ys numVoices). voice (zs ! j) = Some v))
           \<and> (generateVoiceAssignments cur numVoices \<noteq> [] \<longrightarrow> voice (zs ! j) \<noteq> None))"
proof -
  let ?us = "unfixedIdx ys"
  let ?V = "set (availableVoices ys numVoices)"
  let ?cands = "generateVoiceAssignments cur numVoices"
  from commitBest_run[of cur numVoices prev]
  obtain xs' where inv: "searchInv (length ?us) ?V xs' ys"
    and res: "(?cands = [] \<and> commitBest prev cur numVoices = Inr (cur\<lparr>chord_notes := xs'\<rparr>))
      \<or> (\<exists>pre best post. ?cands = pre @ best # post
            \<and> commitBest prev cur numVoices = Inr (cur\<lparr>chord_notes := setVoicesAt ?us best xs'\<rparr>))"
    unfolding ys_def by blast
  have lx: "length xs' = length ys" using inv by (simp add: searchInv_def)
  have xsj: "\<And>j. j < length ys \<Longrightarrow> (xs' ! j)\<lparr>voice := None\<rparr> = (ys ! j)\<lparr>voice := None\<rparr>
        \<and> (voice (xs' ! j) = voice (ys ! j) \<or> (\<exists>v \<in> ?V. voice (xs' ! j) = Some v))"
    using inv by (simp add: searchInv_def)
  from res show ?thesis
  proof (elim disjE conjE exE)
    assume "?cands = []" and c: "commitBest prev cur numVoices = Inr (cur\<lparr>chord_notes := xs'\<rparr>)"
    then show ?thesis using lx xsj by (intro exI[of _ xs']) simp
  next
    fix pre best post
    assume cands: "?cands = pre @ best # post"
      and c: "commitBest prev cur numVoices = Inr (cur\<lparr>chord_notes := setVoicesAt ?us best xs'\<rparr>)"
    have "best \<in> set ?cands" using cands by simp
    then have lb: "length best = length ?us" and bV: "set best \<subseteq> ?V"
      unfolding set_generateVoiceAssignments ys_def by simp_all
    let ?zs = "setVoicesAt ?us best xs'"
    have "(?zs ! j)\<lparr>voice := None\<rparr> = (ys ! j)\<lparr>voice := None\<rparr>
           \<and> (voice (?zs ! j) = voice (ys ! j) \<or> (\<exists>v \<in> ?V. voice (?zs ! j) = Some v))
           \<and> voice (?zs ! j) \<noteq> None" if j: "j < length ys" for j
    proof (cases "j \<in> set ?us")
      case True
      then obtain i where i: "i < length ?us" "j = ?us ! i" by (auto simp: in_set_conv_nth)
      have z: "?zs ! j = (xs' ! j)\<lparr>voice := Some (best ! i)\<rparr>"
        using i lb j lx unfolding i(2) by (intro nth_setVoicesAt_nth) simp_all
      have "best ! i \<in> ?V" using bV lb i(1) by (metis nth_mem subsetD)
      moreover have "(xs' ! j)\<lparr>voice := Some (best ! i)\<rparr>\<lparr>voice := None\<rparr> = (ys ! j)\<lparr>voice := None\<rparr>"
        using xsj[OF j] by simp
      ultimately show ?thesis using z by auto
    next
      case False
      then have z: "?zs ! j = xs' ! j" by (simp add: nth_setVoicesAt_other)
      have "voice (ys ! j) \<noteq> None" using False j by (simp add: unfixedIdx_mem)
      then show ?thesis using z xsj[OF j] by auto
    qed
    then show ?thesis using c by (intro exI[of _ ?zs]) (simp add: lx)
  qed
qed

lemma map_ignoring_voice:
  fixes zs ys :: "Note list"
  assumes "length zs = length ys"
    and "\<And>j. j < length ys \<Longrightarrow> (zs ! j)\<lparr>voice := None\<rparr> = (ys ! j)\<lparr>voice := None\<rparr>"
    and "\<And>n v. f (n\<lparr>voice := v\<rparr>) = f n"
  shows "map f zs = map f ys"
proof (rule nth_equalityI)
  show "length (map f zs) = length (map f ys)" using assms(1) by simp
next
  fix j assume "j < length (map f zs)"
  then have j: "j < length ys" using assms(1) by simp
  have "f (zs ! j) = f ((zs ! j)\<lparr>voice := None\<rparr>)" by (simp add: assms(3))
  also have "\<dots> = f ((ys ! j)\<lparr>voice := None\<rparr>)" using assms(2)[OF j] by simp
  also have "\<dots> = f (ys ! j)" by (simp add: assms(3))
  finally show "map f zs ! j = map f ys ! j" using j assms(1) by simp
qed

section \<open>adjustOctaves\<close>

lemma map_adjustUpper:
  assumes "\<And>n p. f (n\<lparr>pitch := p\<rparr>) = f n"
  shows "map f (adjustUpper xs) = map f xs"
proof (induction xs)
  case Nil
  show ?case by simp
next
  case (Cons x xs)
  show ?case
  proof (cases "adjustUpper xs")
    case Nil
    then have "xs = []" using Cons.IH by simp
    then show ?thesis by simp
  next
    case (Cons y rest)
    then show ?thesis using Cons.IH by (simp add: placeAbove_def Let_def assms)
  qed
qed

lemma length_adjustUpper [simp]: "length (adjustUpper xs) = length xs"
  using map_adjustUpper[of "\<lambda>_. ()" xs] by (metis length_map)

lemma adjustOctaves_cases:
  "adjustOctaves c = c\<lparr>chord_notes := sort_key vnum (chord_notes c)\<rparr> \<and>
     (chord_notes c = [] \<or> findIndex (\<lambda>n. voice n = Some (Max (set (map vnum (chord_notes c)))))
                              (sort_key vnum (chord_notes c)) = None)
   \<or> (\<exists>b. chord_notes c \<noteq> []
         \<and> findIndex (\<lambda>n. voice n = Some (Max (set (map vnum (chord_notes c)))))
                              (sort_key vnum (chord_notes c)) = Some b
         \<and> adjustOctaves c = c\<lparr>chord_notes := adjustUpper (loweredNotes (sort_key vnum (chord_notes c)) b)\<rparr>)"
proof (cases "chord_notes c = []")
  case True
  then show ?thesis by (simp add: adjustOctaves_def)
next
  case False
  then have ne: "sort_key vnum (chord_notes c) \<noteq> []" by (metis length_sort list.size(3) length_0_conv)
  have mx: "set (map vnum (sort_key vnum (chord_notes c))) = set (map vnum (chord_notes c))" by simp
  show ?thesis
  proof (cases "findIndex (\<lambda>n. voice n = Some (Max (set (map vnum (chord_notes c))))) (sort_key vnum (chord_notes c))")
    case None
    then show ?thesis using ne unfolding adjustOctaves_def Let_def mx by simp
  next
    case (Some b)
    then show ?thesis using ne False unfolding adjustOctaves_def Let_def mx loweredNotes_def
      by simp
  qed
qed

lemma map_loweredNotes:
  assumes "\<And>n p. f (n\<lparr>pitch := p\<rparr>) = f n"
  shows "map f (loweredNotes xs b) = map f xs"
  unfolding loweredNotes_def using map_update_same[of f "\<lambda>n. n\<lparr>pitch := lowerBass (pitch (xs ! b)) (Min (set (map pitch xs)))\<rparr>" xs b] assms
  by simp

lemma adjustOctaves_frame:
  assumes "\<And>n p. f (n\<lparr>pitch := p\<rparr>) = f n"
  shows "map f (chord_notes (adjustOctaves c)) = map f (sort_key vnum (chord_notes c))"
    and "chord_position (adjustOctaves c) = chord_position c"
  using adjustOctaves_cases[of c] assms
  by (auto simp: map_adjustUpper map_loweredNotes)


section \<open>The pipeline stage by stage\<close>

text \<open>\<open>optimizeChordVoicing\<close> raises no error: it returns the chord as it is, or the
  committed chord after \<open>adjustOctaves\<close>.\<close>

lemma optimizeChordVoicing_cases:
  "(unfixedIdx (chord_notes cur) = [] \<and> optimizeChordVoicing prev cur numVoices = Inr cur)
   \<or> (\<exists>committed. unfixedIdx (chord_notes cur) \<noteq> []
         \<and> commitBest prev cur numVoices = Inr committed
         \<and> optimizeChordVoicing prev cur numVoices = Inr (adjustOctaves committed))"
proof (cases "unfixedIdx (chord_notes cur) = []")
  case True
  then show ?thesis by (simp add: optimizeChordVoicing_def)
next
  case False
  from commitBest_post[of prev cur numVoices] obtain zs where
    "commitBest prev cur numVoices = Inr (cur\<lparr>chord_notes := zs\<rparr>)" by blast
  then show ?thesis using False by (simp add: optimizeChordVoicing_def)
qed

lemma optimizeChordVoicing_frame:
  assumes f: "\<And>n v. f (n\<lparr>voice := v\<rparr>) = f n" "\<And>n p. f (n\<lparr>pitch := p\<rparr>) = f n"
    and r: "optimizeChordVoicing prev cur numVoices = Inr voiced"
  shows "mset (map f (chord_notes voiced)) = mset (map f (chord_notes cur))"
    and "chord_position voiced = chord_position cur"
proof -
  from optimizeChordVoicing_cases[of cur prev numVoices]
  have "mset (map f (chord_notes voiced)) = mset (map f (chord_notes cur))
      \<and> chord_position voiced = chord_position cur"
  proof (elim disjE conjE exE)
    assume "optimizeChordVoicing prev cur numVoices = Inr cur"
    then show ?thesis using r by simp
  next
    fix committed
    assume c: "commitBest prev cur numVoices = Inr committed"
      and o: "optimizeChordVoicing prev cur numVoices = Inr (adjustOctaves committed)"
    from commitBest_post[of prev cur numVoices] c obtain zs where
      zs: "committed = cur\<lparr>chord_notes := zs\<rparr>" "length zs = length (chord_notes cur)"
        "\<And>j. j < length (chord_notes cur) \<Longrightarrow> (zs ! j)\<lparr>voice := None\<rparr> = (chord_notes cur ! j)\<lparr>voice := None\<rparr>"
      by auto
    have m: "map f zs = map f (chord_notes cur)"
      using zs(2,3) f(1) by (rule map_ignoring_voice)
    have v: "voiced = adjustOctaves committed" using o r by simp
    have "mset (map f (chord_notes voiced)) = mset (map f (sort_key vnum (chord_notes committed)))"
      unfolding v using adjustOctaves_frame(1)[of f committed] f(2) by simp
    also have "\<dots> = mset (map f zs)" by (simp add: zs(1))
    finally have "mset (map f (chord_notes voiced)) = mset (map f (chord_notes cur))" using m by simp
    moreover have "chord_position voiced = chord_position cur"
      unfolding v using adjustOctaves_frame(2)[of "\<lambda>_. ()" committed] by (simp add: zs(1))
    ultimately show ?thesis by simp
  qed
  then show "mset (map f (chord_notes voiced)) = mset (map f (chord_notes cur))"
    and "chord_position voiced = chord_position cur" by simp_all
qed

text \<open>The loop over the chords after the first raises no error, and each chord of its
  result is \<open>optimizeChordVoicing\<close> of the chord at the same place, after some chord.\<close>

lemma optimizeRest_total:
  "\<exists>voiced. optimizeRest prev cs numVoices = Inr voiced
     \<and> list_all2 (\<lambda>c c'. \<exists>p. optimizeChordVoicing p c numVoices = Inr c') cs voiced"
proof (induction cs arbitrary: prev)
  case Nil
  show ?case by simp
next
  case (Cons c cs)
  from optimizeChordVoicing_cases[of c prev numVoices] obtain c' where
    c': "optimizeChordVoicing prev c numVoices = Inr c'" by blast
  from Cons.IH[of c'] obtain voiced where
    v: "optimizeRest c' cs numVoices = Inr voiced"
      "list_all2 (\<lambda>c c'. \<exists>p. optimizeChordVoicing p c numVoices = Inr c') cs voiced" by blast
  show ?case using c' v by (intro exI[of _ "c' # voiced"]) auto
qed

lemma map_assignRemaining:
  assumes "\<And>n v. f (n\<lparr>voice := v\<rparr>) = f n"
  shows "map f (assignRemaining is cv bass ns) = map f ns"
proof (induction "is" cv bass ns rule: assignRemaining.induct)
  case (1 cv bass ns)
  show ?case by simp
next
  case (2 i cv bass ns)
  show ?case using map_update_same[of f "\<lambda>n. n\<lparr>voice := Some bass\<rparr>" ns i] assms by simp
next
  case (3 i j js cv bass ns)
  have "map f (ns[i := (ns ! i)\<lparr>voice := Some cv\<rparr>]) = map f ns"
    using map_update_same[of f "\<lambda>n. n\<lparr>voice := Some cv\<rparr>" ns i] assms by simp
  then show ?case using 3 by simp
qed

lemma assignVoicesToFirstChord_frame:
  assumes "\<And>n v. f (n\<lparr>voice := v\<rparr>) = f n"
  shows "map f (chord_notes (assignVoicesToFirstChord c numVoices)) = map f (chord_notes c)"
  by (simp add: assignVoicesToFirstChord_def Let_def map_assignRemaining assms)

lemma adjustHarmony_cases:
  "adjustHarmonyOctaveRelativeToMelody chords = chords
   \<or> (\<exists>adj. adjustHarmonyOctaveRelativeToMelody chords = map (shiftHarmony adj) chords)"
  unfolding adjustHarmonyOctaveRelativeToMelody_def Let_def by auto

lemma shiftHarmony_frame:
  assumes "\<And>n p. f (n\<lparr>pitch := p\<rparr>) = f n"
  shows "map f (chord_notes (shiftHarmony adj c)) = map f (chord_notes c)"
  by (simp add: shiftHarmony_def shiftNote_def assms)

lemma flatten_frame:
  assumes "list_all2 (\<lambda>c c'. mset (map f (chord_notes c')) = mset (map f (chord_notes c))) cs cs'"
  shows "mset (map f (flattenChordsToNotes cs')) = mset (map f (flattenChordsToNotes cs))"
  using assms by (induction rule: list_all2_induct) (simp_all add: flattenChordsToNotes_def)

lemma adjustHarmony_frame:
  assumes "\<And>n p. f (n\<lparr>pitch := p\<rparr>) = f n"
  shows "map f (flattenChordsToNotes (adjustHarmonyOctaveRelativeToMelody chords))
       = map f (flattenChordsToNotes chords)"
proof -
  have "map f (flattenChordsToNotes (map (shiftHarmony adj) chords)) = map f (flattenChordsToNotes chords)" for adj
    by (induction chords) (simp_all add: flattenChordsToNotes_def shiftHarmony_frame assms)
  then show ?thesis using adjustHarmony_cases[of chords] by auto
qed

section \<open>identifyChords\<close>

lemma mset_filter_disjoint:
  assumes "\<And>x. \<not> (P x \<and> Q x)"
  shows "mset (filter P xs) + mset (filter Q xs) = mset (filter (\<lambda>x. P x \<or> Q x) xs)"
  using assms by (induction xs) auto

lemma flatten_buildChords:
  "distinct ps \<Longrightarrow>
   mset (flattenChordsToNotes (buildChords m allNotes ps))
     = mset (map (tagMelody m) (filter (\<lambda>n. position n \<in> set ps) allNotes))"
proof (induction ps)
  case Nil
  show ?case by (simp add: flattenChordsToNotes_def)
next
  case (Cons p ps)
  have "mset (flattenChordsToNotes (buildChords m allNotes (p # ps)))
      = mset (map (tagMelody m) (filter (\<lambda>n. position n = p) allNotes))
        + mset (flattenChordsToNotes (buildChords m allNotes ps))"
    by (simp add: flattenChordsToNotes_def)
  also have "\<dots> = image_mset (tagMelody m)
        (mset (filter (\<lambda>n. position n = p) allNotes) + mset (filter (\<lambda>n. position n \<in> set ps) allNotes))"
    using Cons by simp
  also have "mset (filter (\<lambda>n. position n = p) allNotes) + mset (filter (\<lambda>n. position n \<in> set ps) allNotes)
      = mset (filter (\<lambda>n. position n = p \<or> position n \<in> set ps) allNotes)"
    using Cons.prems by (intro mset_filter_disjoint) auto
  finally show ?case by simp
qed

lemma flatten_identifyChords:
  "mset (flattenChordsToNotes (identifyChords m h)) = mset (map (tagMelody m) (m @ h))"
proof -
  have "filter (\<lambda>n. position n \<in> set (sortedPositions (m @ h))) (m @ h) = m @ h"
    by (auto simp: sortedPositions_def)
  moreover have "distinct (sortedPositions (m @ h))" by (simp add: sortedPositions_def)
  ultimately show ?thesis
    unfolding identifyChords_def Let_def using flatten_buildChords[of "sortedPositions (m @ h)" m "m @ h"]
    by simp
qed

lemma identifyChords_nonempty:
  assumes "m @ h \<noteq> []"
  shows "identifyChords m h \<noteq> []"
proof -
  have "set (sortedPositions (m @ h)) \<noteq> {}" using assms by (simp add: sortedPositions_def)
  then obtain p ps where "sortedPositions (m @ h) = p # ps" by (cases "sortedPositions (m @ h)") auto
  then show ?thesis by (simp add: identifyChords_def Let_def)
qed


section \<open>The frame of optimizeVoiceLeading\<close>

text \<open>The chords of a non-empty input, through the pipeline: no error, and any function of
  a note that ignores its pitch and its voice takes the same values, as a multiset, on the
  flattened result and on the input.\<close>

lemma optimizedChords_frame:
  assumes ne: "m @ h \<noteq> []"
    and f: "\<And>n v. f (n\<lparr>voice := v\<rparr>) = f n" "\<And>n p. f (n\<lparr>pitch := p\<rparr>) = f n"
  shows "\<exists>out. optimizedChords m h = Inr out
     \<and> mset (map f (flattenChordsToNotes out)) = mset (map f (m @ h))"
proof -
  let ?N = "determineVoiceCount (identifyChords m h)"
  from identifyChords_nonempty[OF ne] obtain c cs where ch: "identifyChords m h = c # cs"
    by (cases "identifyChords m h") auto
  let ?first = "assignVoicesToFirstChord c ?N"
  from optimizeRest_total[of ?first cs ?N] obtain voiced where
    v: "optimizeRest ?first cs ?N = Inr voiced"
    and all: "list_all2 (\<lambda>c c'. \<exists>p. optimizeChordVoicing p c ?N = Inr c') cs voiced" by blast
  let ?out = "adjustHarmonyOctaveRelativeToMelody (?first # voiced)"
  have res: "optimizedChords m h = Inr ?out"
    using ch v by (simp add: optimizedChords_def Let_def)
  have "list_all2 (\<lambda>c c'. mset (map f (chord_notes c')) = mset (map f (chord_notes c))) cs voiced"
    using all optimizeChordVoicing_frame(1)[of f] f
    by (elim list_all2_mono) blast
  then have rest: "mset (map f (flattenChordsToNotes voiced)) = mset (map f (flattenChordsToNotes cs))"
    by (rule flatten_frame)
  have "mset (map f (flattenChordsToNotes ?out)) = mset (map f (flattenChordsToNotes (?first # voiced)))"
    using adjustHarmony_frame[of f "?first # voiced"] f(2) by simp
  also have "\<dots> = mset (map f (chord_notes ?first)) + mset (map f (flattenChordsToNotes voiced))"
    by (simp add: flattenChordsToNotes_def)
  also have "\<dots> = mset (map f (chord_notes c)) + mset (map f (flattenChordsToNotes cs))"
    using rest assignVoicesToFirstChord_frame[of f c ?N] f(1) by simp
  also have "\<dots> = mset (map f (flattenChordsToNotes (identifyChords m h)))"
    by (simp add: ch flattenChordsToNotes_def)
  also have "\<dots> = image_mset f (mset (flattenChordsToNotes (identifyChords m h)))" by simp
  also have "\<dots> = image_mset f (mset (map (tagMelody m) (m @ h)))"
    by (simp only: flatten_identifyChords)
  also have "\<dots> = mset (map f (m @ h))"
  proof -
    have "f \<circ> tagMelody m = f" by (rule ext) (simp add: tagMelody_def f(1))
    then have "map f (map (tagMelody m) (m @ h)) = map f (m @ h)" by (simp del: map_append)
    then show ?thesis by (metis mset_map)
  qed
  finally show ?thesis using res by blast
qed

text \<open>
  C10. When melody and harmony are not both empty, \<open>optimizeVoiceLeading\<close> returns a note
  list with one note for each input note, and the notes of the output carry the same
  positions and durations as the notes of the input, note for note (the pairs of position
  and duration are the same multiset): only pitch and voice are changed.
\<close>

theorem optimizeVoiceLeading_frame:
  assumes "melodyNotes @ harmonyNotes \<noteq> []"
  shows "\<exists>out. optimizeVoiceLeading melodyNotes harmonyNotes = Inr out
     \<and> length out = length melodyNotes + length harmonyNotes
     \<and> mset (map (\<lambda>n. (position n, duration n)) out)
         = mset (map (\<lambda>n. (position n, duration n)) (melodyNotes @ harmonyNotes))"
proof -
  from optimizedChords_frame[OF assms, of "\<lambda>n. (position n, duration n)"]
  obtain chords where c: "optimizedChords melodyNotes harmonyNotes = Inr chords"
    and m: "mset (map (\<lambda>n. (position n, duration n)) (flattenChordsToNotes chords))
         = mset (map (\<lambda>n. (position n, duration n)) (melodyNotes @ harmonyNotes))"
    by auto
  have o: "optimizeVoiceLeading melodyNotes harmonyNotes = Inr (flattenChordsToNotes chords)"
    using c by (simp add: optimizeVoiceLeading_def)
  have "size (mset (map (\<lambda>n. (position n, duration n)) (flattenChordsToNotes chords)))
      = size (mset (map (\<lambda>n. (position n, duration n)) (melodyNotes @ harmonyNotes)))"
    using m by simp
  then have "length (flattenChordsToNotes chords) = length melodyNotes + length harmonyNotes"
    by simp
  then show ?thesis using o m by blast
qed

theorem optimizeVoiceLeading_frame_witness:
  "[inputNote 72 0 8, inputNote 74 8 4] @ [inputNote 60 0 16, inputNote 62 8 2] \<noteq> []
   \<and> (\<exists>out. optimizeVoiceLeading [inputNote 72 0 8, inputNote 74 8 4]
                [inputNote 60 0 16, inputNote 62 8 2] = Inr out
      \<and> length out = 4
      \<and> mset (map (\<lambda>n. (position n, duration n)) out) = {#(0, 8), (8, 4), (0, 16), (8, 2)#})"
  using optimizeVoiceLeading_frame
    [of "[inputNote 72 0 8, inputNote 74 8 4]" "[inputNote 60 0 16, inputNote 62 8 2]"]
  by (simp add: eval_nat_numeral inputNote_def)

section \<open>The shape adjustOctaves gives a chord\<close>

lemma placeAbove_pitch:
  "pitch lowerNote \<le> pitch (placeAbove currentNote lowerNote)
   \<and> pitch (placeAbove currentNote lowerNote) - pitch lowerNote \<le> 12"
proof -
  define px py where "px = pitch currentNote" and "py = pitch lowerNote"
  define p1 where "p1 = (if px \<le> py then px + 12 * ((py - px) div 12 + 1) else px)"
  define p2 where "p2 = (if p1 - py > 12 then p1 - 12 * ((p1 - py) div 12) else p1)"
  have h1: "py < p1"
  proof (cases "px \<le> py")
    case True
    have "py < px + 12 * ((py - px) div 12 + 1)" by presburger
    then show ?thesis using True by (simp add: p1_def)
  next
    case False
    then show ?thesis by (simp add: p1_def)
  qed
  have h2: "py \<le> p2 \<and> p2 - py \<le> 12"
  proof (cases "p1 - py > 12")
    case True
    have "py \<le> p1 - 12 * ((p1 - py) div 12) \<and> p1 - 12 * ((p1 - py) div 12) - py \<le> 12"
      by presburger
    then show ?thesis using True by (simp add: p2_def)
  next
    case False
    then show ?thesis using h1 by (simp add: p2_def)
  qed
  have "pitch (placeAbove currentNote lowerNote) = p2"
    by (simp add: placeAbove_def Let_def p2_def p1_def px_def py_def)
  then show ?thesis using h2 by (simp add: py_def)
qed

lemma successively_adjustUpper:
  "successively (\<lambda>a b. pitch b \<le> pitch a \<and> pitch a - pitch b \<le> 12) (adjustUpper xs)"
proof (induction xs)
  case Nil
  show ?case by simp
next
  case (Cons x xs)
  show ?case
  proof (cases "adjustUpper xs")
    case Nil
    then show ?thesis by simp
  next
    case (Cons y rest)
    then show ?thesis using Cons.IH placeAbove_pitch[of y x] by simp
  qed
qed

lemma findIndex_Some:
  "\<exists>x \<in> set xs. P x \<Longrightarrow> \<exists>i. findIndex P xs = Some i"
  by (induction xs) auto

lemma vnum_voice: "voice a = voice b \<Longrightarrow> vnum a = vnum b"
  by (simp add: vnum_def)

lemma map_vnum_voice:
  assumes "map voice xs = map voice ys"
  shows "map vnum xs = map vnum ys"
proof -
  have v: "vnum = (\<lambda>v. case v of None \<Rightarrow> 0 | Some w \<Rightarrow> w) \<circ> voice"
    by (rule ext) (simp add: vnum_def)
  have "map vnum xs = map (\<lambda>v. case v of None \<Rightarrow> 0 | Some w \<Rightarrow> w) (map voice xs)"
    unfolding v by simp
  also have "\<dots> = map (\<lambda>v. case v of None \<Rightarrow> 0 | Some w \<Rightarrow> w) (map voice ys)"
    using assms by simp
  also have "\<dots> = map vnum ys" unfolding v by simp
  finally show ?thesis .
qed

text \<open>
  A chord all of whose notes carry a voice: \<open>adjustOctaves\<close> finds the bass note, so its
  result is in voice order, every note at least as high as the next and at most an octave
  above it, with the voices it had.
\<close>

lemma adjustOctaves_shape:
  assumes ne: "chord_notes c \<noteq> []"
    and voiced: "\<forall>n \<in> set (chord_notes c). voice n \<noteq> None"
  shows "sorted (map vnum (chord_notes (adjustOctaves c)))"
    and "successively (\<lambda>a b. pitch b \<le> pitch a \<and> pitch a - pitch b \<le> 12) (chord_notes (adjustOctaves c))"
    and "set (map voice (chord_notes (adjustOctaves c))) = set (map voice (chord_notes c))"
    and "chord_notes (adjustOctaves c) \<noteq> []"
proof -
  let ?s = "sort_key vnum (chord_notes c)"
  let ?mx = "Max (set (map vnum (chord_notes c)))"
  have "?mx \<in> set (map vnum (chord_notes c))" using ne by (intro Max_in) auto
  then obtain n where n: "n \<in> set (chord_notes c)" "vnum n = ?mx" by auto
  then have "voice n = Some ?mx" using voiced by (auto simp: vnum_def split: option.splits)
  then have "\<exists>x \<in> set ?s. voice x = Some ?mx" using n(1) by auto
  then obtain b where b: "findIndex (\<lambda>n. voice n = Some ?mx) ?s = Some b"
    using findIndex_Some[of ?s "\<lambda>n. voice n = Some ?mx"] by blast
  have res: "adjustOctaves c = c\<lparr>chord_notes := adjustUpper (loweredNotes ?s b)\<rparr>"
    using adjustOctaves_cases[of c] b ne by auto
  have v: "map voice (chord_notes (adjustOctaves c)) = map voice ?s"
    unfolding res by (simp add: map_adjustUpper map_loweredNotes)
  then have "map vnum (chord_notes (adjustOctaves c)) = map vnum ?s" by (rule map_vnum_voice)
  then show "sorted (map vnum (chord_notes (adjustOctaves c)))" by simp
  show "successively (\<lambda>a b. pitch b \<le> pitch a \<and> pitch a - pitch b \<le> 12) (chord_notes (adjustOctaves c))"
    unfolding res using successively_adjustUpper by simp
  have "set (map voice ?s) = set (map voice (chord_notes c))" by simp
  then show "set (map voice (chord_notes (adjustOctaves c))) = set (map voice (chord_notes c))"
    using v by simp
  have "length (chord_notes (adjustOctaves c)) = length (chord_notes c)"
    using v by (metis length_map length_sort)
  then show "chord_notes (adjustOctaves c) \<noteq> []" using ne by auto
qed

section \<open>The shape survives the shift of the harmony\<close>

lemma shiftNote_voice [simp]: "voice (shiftNote adj n) = voice n"
  by (simp add: shiftNote_def)

lemma shiftNote_vnum [simp]: "vnum (shiftNote adj n) = vnum n"
  by (simp add: vnum_def)

lemma successively_shift:
  assumes "sorted (map vnum xs)"
    and "\<forall>n \<in> set xs. \<exists>v. voice n = Some v \<and> 0 \<le> v"
    and "successively (\<lambda>a b. pitch b \<le> pitch a \<and> pitch a - pitch b \<le> 12) xs"
    and "0 \<le> adj"
    and "\<forall>a \<in> set xs. \<forall>b \<in> set xs. isMelody a \<and> isHarmony b \<longrightarrow> pitch b + adj < pitch a"
  shows "successively (\<lambda>a b. pitch b \<le> pitch a \<and> pitch a - pitch b \<le> 12) (map (shiftNote adj) xs)"
  using assms
proof (induction xs rule: induct_list012)
  case 1
  show ?case by simp
next
  case (2 x)
  show ?case by simp
next
  case (3 x y zs)
  have rest: "successively (\<lambda>a b. pitch b \<le> pitch a \<and> pitch a - pitch b \<le> 12) (map (shiftNote adj) (y # zs))"
    using 3 by (intro "3.IH"(2)) auto
  have xy: "pitch y \<le> pitch x" "pitch x - pitch y \<le> 12" using "3.prems"(3) by simp_all
  have vx: "vnum x \<le> vnum y" using "3.prems"(1) by simp
  obtain v w where v: "voice x = Some v" "0 \<le> v" and w: "voice y = Some w" "0 \<le> w"
    using "3.prems"(2) by auto
  have vw: "v \<le> w" using vx v w by (simp add: vnum_def)
  have "pitch (shiftNote adj y) \<le> pitch (shiftNote adj x)
      \<and> pitch (shiftNote adj x) - pitch (shiftNote adj y) \<le> 12"
  proof (cases "isHarmony x")
    case True
    then have "v \<noteq> 0" using v by (simp add: isHarmony_def)
    then have "w \<noteq> 0" using vw v(2) by simp
    then have "isHarmony y" using w by (simp add: isHarmony_def)
    then show ?thesis using True xy by (simp add: shiftNote_def)
  next
    case False
    then have mx: "isMelody x" using v by (simp add: isHarmony_def isMelody_def)
    show ?thesis
    proof (cases "isHarmony y")
      case True
      have "pitch y + adj < pitch x" using "3.prems"(5) mx True by simp
      then show ?thesis using True False xy "3.prems"(4) by (simp add: shiftNote_def)
    next
      case False
      then show ?thesis using \<open>\<not> isHarmony x\<close> xy by (simp add: shiftNote_def)
    qed
  qed
  then show ?case using rest by simp
qed

text \<open>When the harmony is shifted, the shift is positive and leaves every harmony note
  below every note on voice 0.\<close>

lemma adjustHarmony_shift_cases:
  "adjustHarmonyOctaveRelativeToMelody chords = chords
   \<or> (\<exists>adj. 0 < adj
        \<and> adjustHarmonyOctaveRelativeToMelody chords = map (shiftHarmony adj) chords
        \<and> (\<forall>a \<in> set (flattenChordsToNotes chords). \<forall>b \<in> set (flattenChordsToNotes chords).
              isMelody a \<and> isHarmony b \<longrightarrow> pitch b + adj < pitch a))"
proof -
  let ?ns = "flattenChordsToNotes chords"
  let ?mel = "filter isMelody ?ns"
  let ?har = "filter isHarmony ?ns"
  let ?gap = "Min (set (map pitch ?mel)) - Max (set (map pitch ?har))"
  let ?adj = "(?gap - 1) div 12 * 12"
  show ?thesis
  proof (cases "?mel \<noteq> [] \<and> ?har \<noteq> [] \<and> ?gap > 12 \<and> ?adj > 0")
    case False
    then have "adjustHarmonyOctaveRelativeToMelody chords = chords"
      unfolding adjustHarmonyOctaveRelativeToMelody_def Let_def by auto
    then show ?thesis by simp
  next
    case True
    then have r: "adjustHarmonyOctaveRelativeToMelody chords = map (shiftHarmony ?adj) chords"
      unfolding adjustHarmonyOctaveRelativeToMelody_def Let_def by simp
    have le: "?adj \<le> ?gap - 1" by presburger
    have "pitch b + ?adj < pitch a" if ab: "a \<in> set ?ns" "b \<in> set ?ns" "isMelody a" "isHarmony b" for a b
    proof -
      have "Min (set (map pitch ?mel)) \<le> pitch a" using ab(1,3) by (intro Min_le) auto
      moreover have "pitch b \<le> Max (set (map pitch ?har))" using ab(2,4) by (intro Max_ge) auto
      ultimately show ?thesis using le by linarith
    qed
    then show ?thesis using r True by blast
  qed
qed


lemma length_adjustHarmony [simp]:
  "length (adjustHarmonyOctaveRelativeToMelody chords) = length chords"
  using adjustHarmony_cases[of chords] by auto

section \<open>The chords of identifyChords\<close>

lemma buildChords_notes:
  "c \<in> set (buildChords m allNotes ps) \<Longrightarrow> set (chord_notes c) \<subseteq> tagMelody m ` set allNotes"
  by (induction ps) auto

lemma tagMelody_voice:
  "voice n = None \<Longrightarrow> voice (tagMelody m n) = None \<or> voice (tagMelody m n) = Some 0"
  by (simp add: tagMelody_def)

lemma identifyChords_voices:
  assumes "\<forall>n \<in> set (m @ h). voice n = None" and "c \<in> set (identifyChords m h)"
    and "n \<in> set (chord_notes c)"
  shows "voice n = None \<or> voice n = Some 0"
proof -
  from buildChords_notes[of c m "m @ h" "sortedPositions (m @ h)"] assms(2,3)
  obtain n' where "n' \<in> set (m @ h)" "n = tagMelody m n'"
    unfolding identifyChords_def Let_def by blast
  moreover have "voice n' = None" using assms(1) \<open>n' \<in> set (m @ h)\<close> by (rule bspec)
  ultimately show ?thesis using tagMelody_voice[of n' m] by simp
qed

lemma determineVoiceCount_fold:
  "a \<le> fold (\<lambda>c maxNotes. max maxNotes (length (chord_notes c))) chords a
   \<and> (\<forall>c \<in> set chords. length (chord_notes c)
         \<le> fold (\<lambda>c maxNotes. max maxNotes (length (chord_notes c))) chords a)"
proof (induction chords arbitrary: a)
  case Nil
  show ?case by simp
next
  case (Cons c chords)
  from Cons.IH[of "max a (length (chord_notes c))"] show ?case by auto
qed

lemma determineVoiceCount_ge:
  "c \<in> set chords \<Longrightarrow> length (chord_notes c) \<le> determineVoiceCount chords"
  unfolding determineVoiceCount_def using determineVoiceCount_fold[of 0 chords] by blast

section \<open>A chord after the first, through the whole pipeline\<close>

text \<open>
  A chord after the first that has an unfixed note, as it stands in the final chords: its
  notes are in voice order, and each note is at least as high as the next and at most an
  octave above it.
\<close>

lemma normalized_chord:
  assumes inp: "\<forall>n \<in> set (m @ h). voice n = None"
    and i: "0 < i" "i < length (identifyChords m h)"
    and u: "unfixedIdx (chord_notes (identifyChords m h ! i)) \<noteq> []"
  shows "\<exists>out. optimizedChords m h = Inr out \<and> length out = length (identifyChords m h)
     \<and> chord_notes (out ! i) \<noteq> []
     \<and> sorted (map vnum (chord_notes (out ! i)))
     \<and> successively (\<lambda>a b. pitch b \<le> pitch a \<and> pitch a - pitch b \<le> 12) (chord_notes (out ! i))"
proof -
  let ?P = "\<lambda>a b :: Note. pitch b \<le> pitch a \<and> pitch a - pitch b \<le> 12"
  let ?chords = "identifyChords m h"
  let ?N = "determineVoiceCount ?chords"
  obtain c cs where ch: "?chords = c # cs" using i(2) by (cases ?chords) auto
  let ?first = "assignVoicesToFirstChord c ?N"
  from optimizeRest_total[of ?first cs ?N] obtain voiced where
    v: "optimizeRest ?first cs ?N = Inr voiced"
    and all: "list_all2 (\<lambda>c c'. \<exists>p. optimizeChordVoicing p c ?N = Inr c') cs voiced" by blast
  let ?L = "?first # voiced"
  let ?out = "adjustHarmonyOctaveRelativeToMelody ?L"
  have res: "optimizedChords m h = Inr ?out"
    using ch v by (simp add: optimizedChords_def Let_def)
  have lv: "length voiced = length cs" using all by (simp add: list_all2_lengthD)
  have lL: "length ?L = length ?chords" using lv ch by simp
  obtain k where k: "i = Suc k" using i(1) by (cases i) auto
  have kc: "k < length cs" using i(2) ch k by simp
  let ?cur = "cs ! k"
  have cur: "?chords ! i = ?cur" using ch k by simp
  have curmem: "?cur \<in> set ?chords" using kc ch by simp
  from list_all2_nthD[OF all kc] obtain p where
    p: "optimizeChordVoicing p ?cur ?N = Inr (voiced ! k)" by blast
  from optimizeChordVoicing_cases[of ?cur p ?N] u cur p obtain committed where
    cb: "commitBest p ?cur ?N = Inr committed" and X: "voiced ! k = adjustOctaves committed"
    by auto
  let ?ys = "chord_notes ?cur"
  have cands: "generateVoiceAssignments ?cur ?N \<noteq> []"
    using determineVoiceCount_ge[OF curmem] by (rule generateVoiceAssignments_nonempty)
  from commitBest_post[of p ?cur ?N] cb cands obtain zs where
    zs: "committed = ?cur\<lparr>chord_notes := zs\<rparr>" "length zs = length ?ys"
    and zj: "\<And>j. j < length ?ys \<Longrightarrow>
           (voice (zs ! j) = voice (?ys ! j)
               \<or> (\<exists>v \<in> set (availableVoices ?ys ?N). voice (zs ! j) = Some v))
           \<and> voice (zs ! j) \<noteq> None"
    by auto
  have zvoice: "\<exists>v. voice n = Some v \<and> 0 \<le> v" if "n \<in> set zs" for n
  proof -
    from that obtain j where j: "j < length zs" "n = zs ! j" by (auto simp: in_set_conv_nth)
    then have jy: "j < length ?ys" using zs(2) by simp
    have "?ys ! j \<in> set ?ys" using jy by simp
    then have y: "voice (?ys ! j) = None \<or> voice (?ys ! j) = Some 0"
      using identifyChords_voices[OF inp curmem] by blast
    from zj[OF jy] show ?thesis
    proof (elim conjE disjE bexE)
      assume "voice (zs ! j) = voice (?ys ! j)" "voice (zs ! j) \<noteq> None"
      then show ?thesis using y j(2) by auto
    next
      fix w assume "w \<in> set (availableVoices ?ys ?N)" "voice (zs ! j) = Some w"
      then show ?thesis using j(2) by (auto simp: set_availableVoices)
    qed
  qed
  have zne: "zs \<noteq> []"
  proof -
    have "length (unfixedIdx ?ys) \<le> length ?ys" by (rule length_unfixedIdx_le)
    then show ?thesis using u cur zs(2) by auto
  qed
  have cne: "chord_notes committed \<noteq> []" using zne zs(1) by simp
  have cv: "\<forall>n \<in> set (chord_notes committed). voice n \<noteq> None"
    using zvoice zs(1) by auto
  let ?X = "chord_notes (voiced ! k)"
  have Xs: "sorted (map vnum ?X)" and Xp: "successively ?P ?X" and Xne: "?X \<noteq> []"
    and Xv: "set (map voice ?X) = set (map voice zs)"
    unfolding X using adjustOctaves_shape[OF cne cv] zs(1) by simp_all
  have Xvoice: "\<forall>n \<in> set ?X. \<exists>v. voice n = Some v \<and> 0 \<le> v"
  proof
    fix n assume "n \<in> set ?X"
    then have "voice n \<in> set (map voice zs)" using Xv by auto
    then obtain n' where "n' \<in> set zs" "voice n = voice n'" by auto
    then show "\<exists>v. voice n = Some v \<and> 0 \<le> v" using zvoice[of n'] by simp
  qed
  have Li: "?L ! i = voiced ! k" using k by simp
  have Xsub: "set ?X \<subseteq> set (flattenChordsToNotes ?L)"
  proof -
    have "voiced ! k \<in> set ?L" using kc lv by simp
    then show ?thesis unfolding flattenChordsToNotes_def by auto
  qed
  have iL: "i < length ?L" using i(2) lL by simp
  from adjustHarmony_shift_cases[of ?L]
  have "chord_notes (?out ! i) \<noteq> [] \<and> sorted (map vnum (chord_notes (?out ! i)))
      \<and> successively ?P (chord_notes (?out ! i))"
  proof (elim disjE exE conjE)
    assume "?out = ?L"
    then show ?thesis using Xs Xp Xne Li by simp
  next
    fix adj
    assume adj: "0 < adj" and o: "?out = map (shiftHarmony adj) ?L"
      and sep: "\<forall>a \<in> set (flattenChordsToNotes ?L). \<forall>b \<in> set (flattenChordsToNotes ?L).
              isMelody a \<and> isHarmony b \<longrightarrow> pitch b + adj < pitch a"
    have "map (shiftHarmony adj) ?L ! i = shiftHarmony adj (?L ! i)"
      using iL by (rule nth_map)
    then have oi: "chord_notes (?out ! i) = map (shiftNote adj) ?X"
      unfolding o Li by (simp add: shiftHarmony_def)
    have sepX: "\<forall>a \<in> set ?X. \<forall>b \<in> set ?X. isMelody a \<and> isHarmony b \<longrightarrow> pitch b + adj < pitch a"
      using sep Xsub by blast
    have "successively ?P (map (shiftNote adj) ?X)"
      using Xs Xvoice Xp _ sepX by (rule successively_shift) (use adj in simp)
    moreover have "map vnum (map (shiftNote adj) ?X) = map vnum ?X" by simp
    then have "sorted (map vnum (map (shiftNote adj) ?X))" using Xs by (simp only:)
    ultimately show ?thesis using Xne unfolding oi by simp
  qed
  then show ?thesis using res lL by (intro exI[of _ ?out]) simp
qed


section \<open>The first chord\<close>

lemma assignRemaining_other:
  "j \<notin> set is \<Longrightarrow> assignRemaining is cv bass ns ! j = ns ! j"
  by (induction "is" cv bass ns rule: assignRemaining.induct) auto

lemma length_assignRemaining [simp]: "length (assignRemaining is cv bass ns) = length ns"
  by (induction "is" cv bass ns rule: assignRemaining.induct) auto

text \<open>The remaining note at place \<open>t\<close> of the sorted array gets voice \<open>currentVoice + t\<close>,
  but the last one, which gets the bass voice.\<close>

lemma assignRemaining_nth:
  "distinct is \<Longrightarrow> \<forall>i \<in> set is. i < length ns \<Longrightarrow> t < length is \<Longrightarrow>
   assignRemaining is cv bass ns ! (is ! t)
     = (ns ! (is ! t))\<lparr>voice := Some (if Suc t = length is then bass else cv + int t)\<rparr>"
proof (induction "is" cv bass ns arbitrary: t rule: assignRemaining.induct)
  case (1 cv bass ns)
  then show ?case by simp
next
  case (2 i cv bass ns)
  then show ?case by simp
next
  case (3 i j js cv bass ns)
  let ?ns = "ns[i := (ns ! i)\<lparr>voice := Some cv\<rparr>]"
  show ?case
  proof (cases t)
    case 0
    have "i \<notin> set (j # js)" using "3.prems"(1) by simp
    then have "assignRemaining (j # js) (cv + 1) bass ?ns ! i = ?ns ! i"
      by (rule assignRemaining_other)
    then show ?thesis using 0 "3.prems"(2) by simp
  next
    case (Suc t')
    have t': "t' < length (j # js)" using "3.prems"(3) Suc by simp
    have ne: "(j # js) ! t' \<noteq> i" using "3.prems"(1) t' by (metis distinct.simps(2) nth_mem)
    have "assignRemaining (j # js) (cv + 1) bass ?ns ! ((j # js) ! t')
        = (?ns ! ((j # js) ! t'))\<lparr>voice := Some (if Suc t' = length (j # js) then bass else cv + 1 + int t')\<rparr>"
      using "3.prems" t' by (intro "3.IH") auto
    then show ?thesis using Suc ne by simp
  qed
qed

lemma sort_key_indices:
  "set (sort_key f xs) = set xs" "distinct (sort_key f xs) = distinct xs"
  "length (sort_key f xs) = length xs"
  by simp_all

text \<open>
  The first chord after \<open>assignVoicesToFirstChord\<close>, on its notes that had no voice: they
  are on pairwise different voices, none negative, and one on a higher voice index is never
  the higher in pitch. Pitches are untouched.
\<close>

lemma assignVoicesToFirstChord_shape:
  fixes c :: Chord and numVoices :: nat
  defines "ns \<equiv> chord_notes c"
  defines "A \<equiv> chord_notes (assignVoicesToFirstChord c numVoices)"
  assumes size: "length ns \<le> numVoices"
    and j: "j \<in> set (unfixedIdx ns)" and k: "k \<in> set (unfixedIdx ns)"
  shows "pitch (A ! j) = pitch (ns ! j)"
    and "\<exists>v. voice (A ! j) = Some v \<and> 0 \<le> v"
    and "j \<noteq> k \<Longrightarrow> vnum (A ! j) \<noteq> vnum (A ! k)"
    and "vnum (A ! j) < vnum (A ! k) \<Longrightarrow> pitch (A ! k) \<le> pitch (A ! j)"
proof -
  let ?U = "unfixedIdx ns"
  let ?rem = "sort_key (\<lambda>i. - pitch (ns ! i)) ?U"
  let ?cv = "if find (\<lambda>n. voice n = Some 0) ns = None then 0 else (1::int)"
  let ?bass = "int numVoices - 1"
  let ?r = "length ?rem"
  have A: "A = assignRemaining ?rem ?cv ?bass ns"
    unfolding A_def ns_def assignVoicesToFirstChord_def Let_def by simp
  have d: "distinct ?rem" by simp
  have b: "\<forall>i \<in> set ?rem. i < length ns" by (simp add: unfixedIdx_mem)
  have r: "?r = length ?U" by simp
  have cvr: "?cv + int ?r \<le> int numVoices"
  proof (cases "find (\<lambda>n. voice n = Some 0) ns = None")
    case True
    then show ?thesis using size length_unfixedIdx_le[of ns] by simp
  next
    case False
    then obtain n where "n \<in> set ns" "voice n = Some 0"
      by (auto simp: find_None_iff)
    then have "filter (\<lambda>n. voice n \<noteq> None) ns \<noteq> []"
      by (auto simp: filter_empty_conv)
    then have pos: "0 < length (filter (\<lambda>n. voice n \<noteq> None) ns)" by simp
    have "length (filter (\<lambda>n. voice n \<noteq> None) ns) + length ?U = length ns"
      using sum_length_filter_compl[of "\<lambda>n. voice n \<noteq> None" ns] by (simp add: length_unfixedIdx)
    then have "Suc (length ?U) \<le> length ns" using pos by linarith
    then have "1 + int (length ?U) \<le> int numVoices" using size by linarith
    then show ?thesis using False by simp
  qed
  have at: "A ! (?rem ! t) = (ns ! (?rem ! t))\<lparr>voice := Some (if Suc t = ?r then ?bass else ?cv + int t)\<rparr>"
    if "t < ?r" for t
    unfolding A using d b that by (rule assignRemaining_nth)
  have vn: "vnum (A ! (?rem ! t)) = (if Suc t = ?r then ?bass else ?cv + int t)" if "t < ?r" for t
    using at[OF that] by (simp add: vnum_def)
  have pt: "pitch (A ! (?rem ! t)) = pitch (ns ! (?rem ! t))" if "t < ?r" for t
    using at[OF that] by simp
  have vlt: "vnum (A ! (?rem ! s)) < vnum (A ! (?rem ! t))" if st: "s < t" "t < ?r" for s t
  proof -
    have s: "s < ?r" "Suc s \<noteq> ?r" using st by simp_all
    show ?thesis
    proof (cases "Suc t = ?r")
      case True
      have "?cv + int s < ?bass" using cvr st True by linarith
      then show ?thesis using vn[OF s(1)] vn[OF st(2)] s(2) True by simp
    next
      case False
      then show ?thesis using vn[OF s(1)] vn[OF st(2)] s(2) st(1) by simp
    qed
  qed
  have ple: "pitch (A ! (?rem ! t)) \<le> pitch (A ! (?rem ! s))" if st: "s < t" "t < ?r" for s t
  proof -
    have "sorted (map (\<lambda>i. - pitch (ns ! i)) ?rem)" by simp
    then have "map (\<lambda>i. - pitch (ns ! i)) ?rem ! s \<le> map (\<lambda>i. - pitch (ns ! i)) ?rem ! t"
      using st by (intro sorted_nth_mono) simp_all
    then have "pitch (ns ! (?rem ! t)) \<le> pitch (ns ! (?rem ! s))" using st by simp
    then show ?thesis using pt st by simp
  qed
  from j obtain s where s: "s < ?r" "j = ?rem ! s"
    by (metis in_set_conv_nth set_sort)
  from k obtain t where t: "t < ?r" "k = ?rem ! t"
    by (metis in_set_conv_nth set_sort)
  show "pitch (A ! j) = pitch (ns ! j)" using pt[OF s(1)] s(2) by simp
  show "\<exists>v. voice (A ! j) = Some v \<and> 0 \<le> v"
  proof -
    have "j < length ns" using j by (simp add: unfixedIdx_mem)
    then have "0 \<le> ?bass" using size by linarith
    then have "0 \<le> (if Suc s = ?r then ?bass else ?cv + int s)" by simp
    then show ?thesis using at[OF s(1)] s(2) by simp
  qed
  show "vnum (A ! j) \<noteq> vnum (A ! k)" if "j \<noteq> k"
  proof -
    have "s \<noteq> t" using that s t by auto
    then consider "s < t" | "t < s" by linarith
    then show ?thesis
    proof cases
      case 1
      then show ?thesis using vlt[OF 1 t(1)] s t by simp
    next
      case 2
      then show ?thesis using vlt[OF 2 s(1)] s t by simp
    qed
  qed
  show "pitch (A ! k) \<le> pitch (A ! j)" if lt: "vnum (A ! j) < vnum (A ! k)"
  proof -
    have "s < t"
    proof (rule ccontr)
      assume "\<not> s < t"
      then consider "s = t" | "t < s" by linarith
      then show False
      proof cases
        case 1
        then show ?thesis using lt s t by simp
      next
        case 2
        then show ?thesis using vlt[OF 2 s(1)] lt s t by simp
      qed
    qed
    then show ?thesis using ple[OF _ t(1)] s t by simp
  qed
qed


text \<open>The first chord in the final chords, on its notes that had no voice after tagging.\<close>

lemma first_chord_final:
  assumes ne: "m @ h \<noteq> []"
  shows "\<exists>out. optimizedChords m h = Inr out
     \<and> (\<forall>j \<in> set (unfixedIdx (chord_notes (identifyChords m h ! 0))).
         \<forall>k \<in> set (unfixedIdx (chord_notes (identifyChords m h ! 0))).
           (j \<noteq> k \<longrightarrow> vnum (chord_notes (out ! 0) ! j) \<noteq> vnum (chord_notes (out ! 0) ! k))
         \<and> (vnum (chord_notes (out ! 0) ! j) < vnum (chord_notes (out ! 0) ! k)
              \<longrightarrow> pitch (chord_notes (out ! 0) ! k) \<le> pitch (chord_notes (out ! 0) ! j)))"
proof -
  let ?chords = "identifyChords m h"
  let ?N = "determineVoiceCount ?chords"
  from identifyChords_nonempty[OF ne] obtain c cs where ch: "?chords = c # cs"
    by (cases ?chords) auto
  let ?first = "assignVoicesToFirstChord c ?N"
  from optimizeRest_total[of ?first cs ?N] obtain voiced where
    v: "optimizeRest ?first cs ?N = Inr voiced" by blast
  let ?L = "?first # voiced"
  let ?out = "adjustHarmonyOctaveRelativeToMelody ?L"
  have res: "optimizedChords m h = Inr ?out"
    using ch v by (simp add: optimizedChords_def Let_def)
  let ?ns = "chord_notes c"
  let ?U = "unfixedIdx ?ns"
  let ?A = "chord_notes ?first"
  have size: "length ?ns \<le> ?N" using determineVoiceCount_ge[of c ?chords] ch by simp
  have lA: "length ?A = length ?ns"
    by (simp add: assignVoicesToFirstChord_def Let_def)
  have shape: "(j \<noteq> k \<longrightarrow> vnum (chord_notes X ! j) \<noteq> vnum (chord_notes X ! k))
         \<and> (vnum (chord_notes X ! j) < vnum (chord_notes X ! k)
              \<longrightarrow> pitch (chord_notes X ! k) \<le> pitch (chord_notes X ! j))"
    if jk: "j \<in> set ?U" "k \<in> set ?U"
      and X: "X = ?first \<or> (\<exists>adj. 0 < adj \<and> X = shiftHarmony adj ?first
                \<and> (\<forall>a \<in> set ?A. \<forall>b \<in> set ?A. isMelody a \<and> isHarmony b \<longrightarrow> pitch b + adj < pitch a))"
    for j k X
  proof -
    note sh = assignVoicesToFirstChord_shape[OF size jk(1) jk(2)]
    note shk = assignVoicesToFirstChord_shape(2)[OF size jk(2) jk(1)]
    from X show ?thesis
    proof (elim disjE exE conjE)
      assume "X = ?first"
      then show ?thesis using sh(3,4) by simp
    next
      fix adj
      assume adj: "0 < adj" and Xs: "X = shiftHarmony adj ?first"
        and sep: "\<forall>a \<in> set ?A. \<forall>b \<in> set ?A. isMelody a \<and> isHarmony b \<longrightarrow> pitch b + adj < pitch a"
      have jl: "j < length ?A" "k < length ?A" using jk lA by (simp_all add: unfixedIdx_mem)
      have Xj: "chord_notes X ! j = shiftNote adj (?A ! j)"
        and Xk: "chord_notes X ! k = shiftNote adj (?A ! k)"
        using jl Xs by (simp_all add: shiftHarmony_def)
      obtain vj where vj: "voice (?A ! j) = Some vj" "0 \<le> vj" using sh(2) by blast
      obtain vk where vk: "voice (?A ! k) = Some vk" "0 \<le> vk" using shk by blast
      have "pitch (shiftNote adj (?A ! k)) \<le> pitch (shiftNote adj (?A ! j))"
        if lt: "vnum (?A ! j) < vnum (?A ! k)"
      proof -
        have le: "pitch (?A ! k) \<le> pitch (?A ! j)" using sh(4) lt by simp
        have vlt: "vj < vk" using lt vj vk by (simp add: vnum_def)
        then have hk: "isHarmony (?A ! k)" using vj(2) vk(1) by (simp add: isHarmony_def)
        show ?thesis
        proof (cases "isHarmony (?A ! j)")
          case True
          then show ?thesis using hk le by (simp add: shiftNote_def)
        next
          case False
          then have "isMelody (?A ! j)" using vj by (simp add: isHarmony_def isMelody_def)
          then have "pitch (?A ! k) + adj < pitch (?A ! j)" using sep hk jl by simp
          then show ?thesis using False hk by (simp add: shiftNote_def)
        qed
      qed
      then show ?thesis unfolding Xj Xk using sh(3) by simp
    qed
  qed
  have out0: "?out ! 0 = ?first \<or> (\<exists>adj. 0 < adj \<and> ?out ! 0 = shiftHarmony adj ?first
                \<and> (\<forall>a \<in> set ?A. \<forall>b \<in> set ?A. isMelody a \<and> isHarmony b \<longrightarrow> pitch b + adj < pitch a))"
  proof -
    from adjustHarmony_shift_cases[of ?L] show ?thesis
    proof (elim disjE exE conjE)
      assume "?out = ?L"
      then show ?thesis by simp
    next
      fix adj
      assume adj: "0 < adj" and o: "?out = map (shiftHarmony adj) ?L"
        and sep: "\<forall>a \<in> set (flattenChordsToNotes ?L). \<forall>b \<in> set (flattenChordsToNotes ?L).
              isMelody a \<and> isHarmony b \<longrightarrow> pitch b + adj < pitch a"
      have "set ?A \<subseteq> set (flattenChordsToNotes ?L)" by (simp add: flattenChordsToNotes_def)
      then have "\<forall>a \<in> set ?A. \<forall>b \<in> set ?A. isMelody a \<and> isHarmony b \<longrightarrow> pitch b + adj < pitch a"
        using sep by blast
      moreover have "?out ! 0 = shiftHarmony adj ?first" using o by simp
      ultimately show ?thesis using adj by blast
    qed
  qed
  have "?chords ! 0 = c" using ch by simp
  then show ?thesis using res shape[OF _ _ out0] by (intro exI[of _ ?out]) simp
qed


section \<open>The invariants of the final chords\<close>

lemma successively_nonincreasing:
  fixes ns :: "Note list"
  assumes "successively (\<lambda>a b. pitch b \<le> pitch a \<and> pitch a - pitch b \<le> 12) ns"
  shows "sorted_wrt (\<lambda>a b. pitch b \<le> pitch a) ns"
proof -
  have "successively (\<lambda>a b. pitch b \<le> pitch a) ns"
    using assms by (rule successively_mono) simp
  moreover have "transp (\<lambda>a b :: Note. pitch b \<le> pitch a)"
    by (auto simp: transp_def)
  ultimately show ?thesis using successively_conv_sorted_wrt by blast
qed

text \<open>
  C5, as the code has it. \<open>adjustOctaves\<close> runs on the chords after the first that have a
  note without a voice when their turn comes (a note that is not a melody note by pitch
  and position); the first chord is voiced by \<open>assignVoicesToFirstChord\<close> alone. In the
  chords that \<open>optimizeVoiceLeading\<close> flattens: in the first chord, of the notes that were
  not melody notes, the one on the highest voice index is the lowest in pitch; in a later
  chord with such a note, the notes are in voice order, so the last one carries the highest
  voice index of the chord, and it has the lowest pitch of the whole chord.
\<close>

theorem bass_lowest_invariant:
  assumes inp: "\<forall>n \<in> set (melodyNotes @ harmonyNotes). voice n = None"
    and ne: "melodyNotes @ harmonyNotes \<noteq> []"
  shows "\<exists>out. optimizedChords melodyNotes harmonyNotes = Inr out
     \<and> optimizeVoiceLeading melodyNotes harmonyNotes = Inr (flattenChordsToNotes out)
     \<and> length out = length (identifyChords melodyNotes harmonyNotes)
     \<and> (\<forall>k \<in> set (unfixedIdx (chord_notes (identifyChords melodyNotes harmonyNotes ! 0))).
           (\<forall>l \<in> set (unfixedIdx (chord_notes (identifyChords melodyNotes harmonyNotes ! 0))).
               vnum (chord_notes (out ! 0) ! l) \<le> vnum (chord_notes (out ! 0) ! k))
           \<longrightarrow> (\<forall>j \<in> set (unfixedIdx (chord_notes (identifyChords melodyNotes harmonyNotes ! 0))).
               pitch (chord_notes (out ! 0) ! k) \<le> pitch (chord_notes (out ! 0) ! j)))
     \<and> (\<forall>i. 0 < i \<and> i < length out
              \<and> unfixedIdx (chord_notes (identifyChords melodyNotes harmonyNotes ! i)) \<noteq> []
           \<longrightarrow> chord_notes (out ! i) \<noteq> []
             \<and> sorted (map vnum (chord_notes (out ! i)))
             \<and> (\<forall>n \<in> set (chord_notes (out ! i)).
                    vnum n \<le> vnum (last (chord_notes (out ! i)))
                  \<and> pitch (last (chord_notes (out ! i))) \<le> pitch n))"
proof -
  let ?chords = "identifyChords melodyNotes harmonyNotes"
  let ?U = "unfixedIdx (chord_notes (?chords ! 0))"
  from first_chord_final[OF ne] obtain out where
    o: "optimizedChords melodyNotes harmonyNotes = Inr out"
    and first: "\<And>j k. j \<in> set ?U \<Longrightarrow> k \<in> set ?U \<Longrightarrow>
           (j \<noteq> k \<longrightarrow> vnum (chord_notes (out ! 0) ! j) \<noteq> vnum (chord_notes (out ! 0) ! k))
         \<and> (vnum (chord_notes (out ! 0) ! j) < vnum (chord_notes (out ! 0) ! k)
              \<longrightarrow> pitch (chord_notes (out ! 0) ! k) \<le> pitch (chord_notes (out ! 0) ! j))"
    by blast
  have fl: "optimizeVoiceLeading melodyNotes harmonyNotes = Inr (flattenChordsToNotes out)"
    using o by (simp add: optimizeVoiceLeading_def)
  have len: "length out = length ?chords"
  proof -
    from identifyChords_nonempty[OF ne] obtain c cs where ch: "?chords = c # cs"
      by (cases ?chords) auto
    from optimizeRest_total[of "assignVoicesToFirstChord c (determineVoiceCount ?chords)" cs
        "determineVoiceCount ?chords"]
    obtain voiced where
      v: "optimizeRest (assignVoicesToFirstChord c (determineVoiceCount ?chords)) cs
            (determineVoiceCount ?chords) = Inr voiced"
      and l: "length voiced = length cs"
      by (auto dest: list_all2_lengthD)
    show ?thesis using o ch v l by (auto simp: optimizedChords_def Let_def)
  qed
  have p0: "pitch (chord_notes (out ! 0) ! k) \<le> pitch (chord_notes (out ! 0) ! j)"
    if k: "k \<in> set ?U" and top: "\<forall>l \<in> set ?U. vnum (chord_notes (out ! 0) ! l) \<le> vnum (chord_notes (out ! 0) ! k)"
      and j: "j \<in> set ?U" for j k
  proof (cases "j = k")
    case True
    then show ?thesis by simp
  next
    case False
    then have "vnum (chord_notes (out ! 0) ! j) \<noteq> vnum (chord_notes (out ! 0) ! k)"
      using first[OF j k] by simp
    moreover have "vnum (chord_notes (out ! 0) ! j) \<le> vnum (chord_notes (out ! 0) ! k)"
      using top j by simp
    ultimately have "vnum (chord_notes (out ! 0) ! j) < vnum (chord_notes (out ! 0) ! k)" by simp
    then show ?thesis using first[OF j k] by simp
  qed
  have later: "chord_notes (out ! i) \<noteq> []
      \<and> sorted (map vnum (chord_notes (out ! i)))
      \<and> (\<forall>n \<in> set (chord_notes (out ! i)).
            vnum n \<le> vnum (last (chord_notes (out ! i)))
          \<and> pitch (last (chord_notes (out ! i))) \<le> pitch n)"
    if i: "0 < i" "i < length out" "unfixedIdx (chord_notes (?chords ! i)) \<noteq> []" for i
  proof -
    have il: "i < length ?chords" using i(2) len by simp
    from normalized_chord[OF inp i(1) il i(3)] o
    have nn: "chord_notes (out ! i) \<noteq> []"
      and s: "sorted (map vnum (chord_notes (out ! i)))"
      and p: "successively (\<lambda>a b. pitch b \<le> pitch a \<and> pitch a - pitch b \<le> 12) (chord_notes (out ! i))"
      by auto
    let ?ns = "chord_notes (out ! i)"
    have sp: "sorted_wrt (\<lambda>a b. pitch b \<le> pitch a) ?ns"
      using p by (rule successively_nonincreasing)
    have sv: "sorted_wrt (\<lambda>a b. vnum a \<le> vnum b) ?ns"
      using s by (simp add: sorted_map)
    have split: "?ns = butlast ?ns @ [last ?ns]" using nn by simp
    have "vnum n \<le> vnum (last ?ns) \<and> pitch (last ?ns) \<le> pitch n" if "n \<in> set ?ns" for n
    proof (cases "n \<in> set (butlast ?ns)")
      case True
      have "sorted_wrt (\<lambda>a b. pitch b \<le> pitch a) (butlast ?ns @ [last ?ns])"
        and "sorted_wrt (\<lambda>a b. vnum a \<le> vnum b) (butlast ?ns @ [last ?ns])"
        using sp sv split by simp_all
      then show ?thesis using True unfolding sorted_wrt_append by simp
    next
      case False
      then have "n = last ?ns" using that split
        by (metis Un_iff empty_iff empty_set set_ConsD set_append)
      then show ?thesis by simp
    qed
    then show ?thesis using nn s by simp
  qed
  show ?thesis
    using o fl len p0 later by (intro exI[of _ out]) blast
qed

theorem bass_lowest_invariant_witness:
  "\<exists>out. optimizedChords scenarioMelody scenarioHarmony = Inr out
     \<and> optimizeVoiceLeading scenarioMelody scenarioHarmony = Inr (flattenChordsToNotes out)
     \<and> length out = length (identifyChords scenarioMelody scenarioHarmony)
     \<and> (\<forall>k \<in> set (unfixedIdx (chord_notes (identifyChords scenarioMelody scenarioHarmony ! 0))).
           (\<forall>l \<in> set (unfixedIdx (chord_notes (identifyChords scenarioMelody scenarioHarmony ! 0))).
               vnum (chord_notes (out ! 0) ! l) \<le> vnum (chord_notes (out ! 0) ! k))
           \<longrightarrow> (\<forall>j \<in> set (unfixedIdx (chord_notes (identifyChords scenarioMelody scenarioHarmony ! 0))).
               pitch (chord_notes (out ! 0) ! k) \<le> pitch (chord_notes (out ! 0) ! j)))
     \<and> (\<forall>i. 0 < i \<and> i < length out
              \<and> unfixedIdx (chord_notes (identifyChords scenarioMelody scenarioHarmony ! i)) \<noteq> []
           \<longrightarrow> chord_notes (out ! i) \<noteq> []
             \<and> sorted (map vnum (chord_notes (out ! i)))
             \<and> (\<forall>n \<in> set (chord_notes (out ! i)).
                    vnum n \<le> vnum (last (chord_notes (out ! i)))
                  \<and> pitch (last (chord_notes (out ! i))) \<le> pitch n))"
proof -
  have a: "\<forall>n \<in> set (scenarioMelody @ scenarioHarmony). voice n = None"
    by (simp add: scenarioMelody_def scenarioHarmony_def inputNote_def)
  have b: "scenarioMelody @ scenarioHarmony \<noteq> []"
    by (simp add: scenarioMelody_def)
  show ?thesis using bass_lowest_invariant[OF a b] .
qed

theorem bass_lowest_first_chord_counterexample:
  "optimizeVoiceLeading [inputNote 60 0 8] [inputNote 72 0 8]
   = Inr [voicedNote 60 0 8 0, voicedNote 72 0 8 1]"
  by code_simp

text \<open>
  C6, as the code has it. \<open>adjustOctaves\<close> runs on the chords after the first that have a
  note without a voice when their turn comes; the first chord is voiced by
  \<open>assignVoicesToFirstChord\<close> alone. In the chords that \<open>optimizeVoiceLeading\<close> flattens:
  in the first chord, of two notes that were not melody notes, the one on the higher voice
  index is never the higher in pitch; in a later chord with such a note, the notes are in
  voice order, each note is at least as high as the next one and at most 12 semitones
  above it, and of any two notes on different voice indices the one on the higher index is
  never the higher in pitch.
\<close>

theorem voice_order_invariant:
  assumes inp: "\<forall>n \<in> set (melodyNotes @ harmonyNotes). voice n = None"
    and ne: "melodyNotes @ harmonyNotes \<noteq> []"
  shows "\<exists>out. optimizedChords melodyNotes harmonyNotes = Inr out
     \<and> optimizeVoiceLeading melodyNotes harmonyNotes = Inr (flattenChordsToNotes out)
     \<and> length out = length (identifyChords melodyNotes harmonyNotes)
     \<and> (\<forall>j \<in> set (unfixedIdx (chord_notes (identifyChords melodyNotes harmonyNotes ! 0))).
         \<forall>k \<in> set (unfixedIdx (chord_notes (identifyChords melodyNotes harmonyNotes ! 0))).
           vnum (chord_notes (out ! 0) ! j) < vnum (chord_notes (out ! 0) ! k)
           \<longrightarrow> pitch (chord_notes (out ! 0) ! k) \<le> pitch (chord_notes (out ! 0) ! j))
     \<and> (\<forall>i. 0 < i \<and> i < length out
              \<and> unfixedIdx (chord_notes (identifyChords melodyNotes harmonyNotes ! i)) \<noteq> []
           \<longrightarrow> (\<forall>j. j + 1 < length (chord_notes (out ! i)) \<longrightarrow>
                    vnum (chord_notes (out ! i) ! j) \<le> vnum (chord_notes (out ! i) ! (j + 1))
                  \<and> pitch (chord_notes (out ! i) ! (j + 1)) \<le> pitch (chord_notes (out ! i) ! j)
                  \<and> pitch (chord_notes (out ! i) ! j) - pitch (chord_notes (out ! i) ! (j + 1)) \<le> 12)
             \<and> (\<forall>a \<in> set (chord_notes (out ! i)). \<forall>b \<in> set (chord_notes (out ! i)).
                    vnum a < vnum b \<longrightarrow> pitch b \<le> pitch a))"
proof -
  let ?chords = "identifyChords melodyNotes harmonyNotes"
  let ?U = "unfixedIdx (chord_notes (?chords ! 0))"
  from first_chord_final[OF ne] obtain out where
    o: "optimizedChords melodyNotes harmonyNotes = Inr out"
    and first: "\<And>j k. j \<in> set ?U \<Longrightarrow> k \<in> set ?U \<Longrightarrow>
           vnum (chord_notes (out ! 0) ! j) < vnum (chord_notes (out ! 0) ! k)
              \<longrightarrow> pitch (chord_notes (out ! 0) ! k) \<le> pitch (chord_notes (out ! 0) ! j)"
    by blast
  have fl: "optimizeVoiceLeading melodyNotes harmonyNotes = Inr (flattenChordsToNotes out)"
    using o by (simp add: optimizeVoiceLeading_def)
  have len: "length out = length ?chords"
  proof -
    from identifyChords_nonempty[OF ne] obtain c cs where ch: "?chords = c # cs"
      by (cases ?chords) auto
    from optimizeRest_total[of "assignVoicesToFirstChord c (determineVoiceCount ?chords)" cs
        "determineVoiceCount ?chords"]
    obtain voiced where
      v: "optimizeRest (assignVoicesToFirstChord c (determineVoiceCount ?chords)) cs
            (determineVoiceCount ?chords) = Inr voiced"
      and l: "length voiced = length cs"
      by (auto dest: list_all2_lengthD)
    show ?thesis using o ch v l by (auto simp: optimizedChords_def Let_def)
  qed
  have later: "(\<forall>j. j + 1 < length (chord_notes (out ! i)) \<longrightarrow>
                    vnum (chord_notes (out ! i) ! j) \<le> vnum (chord_notes (out ! i) ! (j + 1))
                  \<and> pitch (chord_notes (out ! i) ! (j + 1)) \<le> pitch (chord_notes (out ! i) ! j)
                  \<and> pitch (chord_notes (out ! i) ! j) - pitch (chord_notes (out ! i) ! (j + 1)) \<le> 12)
             \<and> (\<forall>a \<in> set (chord_notes (out ! i)). \<forall>b \<in> set (chord_notes (out ! i)).
                    vnum a < vnum b \<longrightarrow> pitch b \<le> pitch a)"
    if i: "0 < i" "i < length out" "unfixedIdx (chord_notes (?chords ! i)) \<noteq> []" for i
  proof -
    have il: "i < length ?chords" using i(2) len by simp
    from normalized_chord[OF inp i(1) il i(3)] o
    have s: "sorted (map vnum (chord_notes (out ! i)))"
      and p: "successively (\<lambda>a b. pitch b \<le> pitch a \<and> pitch a - pitch b \<le> 12) (chord_notes (out ! i))"
      by auto
    let ?ns = "chord_notes (out ! i)"
    have sp: "sorted_wrt (\<lambda>a b. pitch b \<le> pitch a) ?ns"
      using p by (rule successively_nonincreasing)
    have adj: "vnum (?ns ! j) \<le> vnum (?ns ! (j + 1))
          \<and> pitch (?ns ! (j + 1)) \<le> pitch (?ns ! j)
          \<and> pitch (?ns ! j) - pitch (?ns ! (j + 1)) \<le> 12" if j: "j + 1 < length ?ns" for j
    proof -
      have "map vnum ?ns ! j \<le> map vnum ?ns ! (j + 1)"
        using s j by (intro sorted_nth_mono) simp_all
      then have "vnum (?ns ! j) \<le> vnum (?ns ! (j + 1))" using j by simp
      moreover have "pitch (?ns ! Suc j) \<le> pitch (?ns ! j) \<and> pitch (?ns ! j) - pitch (?ns ! Suc j) \<le> 12"
        using successively_nth[OF p, of j] j by simp
      ultimately show ?thesis by simp
    qed
    have cross: "pitch b \<le> pitch a" if ab: "a \<in> set ?ns" "b \<in> set ?ns" "vnum a < vnum b" for a b
    proof -
      from ab obtain x y where x: "x < length ?ns" "a = ?ns ! x" and y: "y < length ?ns" "b = ?ns ! y"
        by (auto simp: in_set_conv_nth)
      have "x < y"
      proof (rule ccontr)
        assume "\<not> x < y"
        then have "y \<le> x" by simp
        then have "map vnum ?ns ! y \<le> map vnum ?ns ! x"
          using s x(1) by (intro sorted_nth_mono) simp_all
        then show False using ab(3) x y by simp
      qed
      then show ?thesis using sorted_wrt_nth_less[OF sp, of x y] x y by simp
    qed
    show ?thesis using adj cross by blast
  qed
  show ?thesis
    using o fl len first later by (intro exI[of _ out]) blast
qed

theorem voice_order_invariant_witness:
  "\<exists>out. optimizedChords scenarioMelody wideHarmony = Inr out
     \<and> optimizeVoiceLeading scenarioMelody wideHarmony = Inr (flattenChordsToNotes out)
     \<and> length out = length (identifyChords scenarioMelody wideHarmony)
     \<and> (\<forall>j \<in> set (unfixedIdx (chord_notes (identifyChords scenarioMelody wideHarmony ! 0))).
         \<forall>k \<in> set (unfixedIdx (chord_notes (identifyChords scenarioMelody wideHarmony ! 0))).
           vnum (chord_notes (out ! 0) ! j) < vnum (chord_notes (out ! 0) ! k)
           \<longrightarrow> pitch (chord_notes (out ! 0) ! k) \<le> pitch (chord_notes (out ! 0) ! j))
     \<and> (\<forall>i. 0 < i \<and> i < length out
              \<and> unfixedIdx (chord_notes (identifyChords scenarioMelody wideHarmony ! i)) \<noteq> []
           \<longrightarrow> (\<forall>j. j + 1 < length (chord_notes (out ! i)) \<longrightarrow>
                    vnum (chord_notes (out ! i) ! j) \<le> vnum (chord_notes (out ! i) ! (j + 1))
                  \<and> pitch (chord_notes (out ! i) ! (j + 1)) \<le> pitch (chord_notes (out ! i) ! j)
                  \<and> pitch (chord_notes (out ! i) ! j) - pitch (chord_notes (out ! i) ! (j + 1)) \<le> 12)
             \<and> (\<forall>a \<in> set (chord_notes (out ! i)). \<forall>b \<in> set (chord_notes (out ! i)).
                    vnum a < vnum b \<longrightarrow> pitch b \<le> pitch a))"
proof -
  have a: "\<forall>n \<in> set (scenarioMelody @ wideHarmony). voice n = None"
    by (simp add: scenarioMelody_def wideHarmony_def inputNote_def)
  have b: "scenarioMelody @ wideHarmony \<noteq> []"
    by (simp add: scenarioMelody_def)
  show ?thesis using voice_order_invariant[OF a b] .
qed

theorem voice_order_first_chord_counterexample:
  "optimizeVoiceLeading [inputNote 72 0 8] [inputNote 67 0 8, inputNote 40 0 8]
   = Inr [voicedNote 72 0 8 0, voicedNote 67 0 8 1, voicedNote 40 0 8 2]"
  by code_simp

section \<open>Sums over the pairs of a list\<close>

lemma sum_list_mset_cong:
  fixes g :: "'a \<Rightarrow> int"
  assumes "mset xs = mset ys"
  shows "sum_list (map g xs) = sum_list (map g ys)"
proof -
  have "sum_list (map g xs) = sum_mset (image_mset g (mset xs))"
    by (metis mset_map sum_mset_sum_list)
  also have "\<dots> = sum_mset (image_mset g (mset ys))" using assms by simp
  also have "\<dots> = sum_list (map g ys)" by (metis mset_map sum_mset_sum_list)
  finally show ?thesis .
qed

lemma sum_list_pairs_mset_cong:
  fixes f :: "'a \<Rightarrow> 'a \<Rightarrow> int"
  assumes "mset xs = mset ys"
  shows "(\<Sum>a\<leftarrow>xs. \<Sum>b\<leftarrow>xs. f a b) = (\<Sum>a\<leftarrow>ys. \<Sum>b\<leftarrow>ys. f a b)"
proof -
  have "(\<Sum>a\<leftarrow>xs. \<Sum>b\<leftarrow>xs. f a b) = (\<Sum>a\<leftarrow>xs. \<Sum>b\<leftarrow>ys. f a b)"
    using sum_list_mset_cong[OF assms] by simp
  also have "\<dots> = (\<Sum>a\<leftarrow>ys. \<Sum>b\<leftarrow>ys. f a b)"
    using assms by (rule sum_list_mset_cong)
  finally show ?thesis .
qed

lemma sum_list_zero:
  fixes g :: "'a \<Rightarrow> int"
  assumes "\<And>a. a \<in> set xs \<Longrightarrow> g a = 0"
  shows "sum_list (map g xs) = 0"
  using assms by (induction xs) simp_all

text \<open>The loop over the pairs \<open>i < j\<close> of a list in order is the sum over all ordered
  pairs of a function that vanishes on the pairs out of order.\<close>

lemma pairSum_square:
  fixes f g :: "'a \<Rightarrow> 'a \<Rightarrow> int"
  assumes "sorted_wrt R xs"
    and "\<And>a b. R a b \<Longrightarrow> g a b = f a b"
    and "\<And>a b. R a b \<Longrightarrow> f b a = 0"
    and "\<And>a. f a a = 0"
  shows "pairSum g xs = (\<Sum>a\<leftarrow>xs. \<Sum>b\<leftarrow>xs. f a b)"
  using assms(1)
proof (induction xs)
  case Nil
  show ?case by simp
next
  case (Cons x xs)
  have R: "\<And>b. b \<in> set xs \<Longrightarrow> R x b" using Cons.prems by simp
  have row: "(\<Sum>b\<leftarrow>xs. g x b) = (\<Sum>b\<leftarrow>xs. f x b)"
    using R assms(2) by (intro arg_cong[where f = sum_list] map_cong) simp_all
  have col: "(\<Sum>a\<leftarrow>xs. f a x) = 0"
    using R assms(3) by (intro sum_list_zero) simp
  have "(\<Sum>a\<leftarrow>x # xs. \<Sum>b\<leftarrow>x # xs. f a b)
      = f x x + (\<Sum>b\<leftarrow>xs. f x b) + (\<Sum>a\<leftarrow>xs. f a x + (\<Sum>b\<leftarrow>xs. f a b))"
    by simp
  also have "(\<Sum>a\<leftarrow>xs. f a x + (\<Sum>b\<leftarrow>xs. f a b)) = (\<Sum>a\<leftarrow>xs. f a x) + (\<Sum>a\<leftarrow>xs. \<Sum>b\<leftarrow>xs. f a b)"
    by (rule sum_list_addf)
  finally have "(\<Sum>a\<leftarrow>x # xs. \<Sum>b\<leftarrow>x # xs. f a b) = (\<Sum>b\<leftarrow>xs. f x b) + (\<Sum>a\<leftarrow>xs. \<Sum>b\<leftarrow>xs. f a b)"
    using col assms(4) by simp
  moreover have "pairSum g xs = (\<Sum>a\<leftarrow>xs. \<Sum>b\<leftarrow>xs. f a b)"
    using Cons by simp
  ultimately show ?case using row by simp
qed

section \<open>The crossing term\<close>

lemma sorted_wrt_sort_key_vnum: "sorted_wrt (\<lambda>a b. vnum a \<le> vnum b) (sort_key vnum ns)"
proof -
  have "sorted (map vnum (sort_key vnum ns))" by simp
  then show ?thesis by (simp add: sorted_map)
qed

lemma crossingCost_penalty:
  "crossingCost (sort_key vnum ns) = crossingPenalty ns"
proof -
  let ?f = "\<lambda>a b :: Note. if vnum a < vnum b \<and> pitch a < pitch b then (1000::int) else 0"
  have "pairSum ?f (sort_key vnum ns) = (\<Sum>a\<leftarrow>sort_key vnum ns. \<Sum>b\<leftarrow>sort_key vnum ns. ?f a b)"
    by (rule pairSum_square[OF sorted_wrt_sort_key_vnum]) auto
  also have "\<dots> = (\<Sum>a\<leftarrow>ns. \<Sum>b\<leftarrow>ns. ?f a b)"
    by (rule sum_list_pairs_mset_cong) simp
  finally show ?thesis by (simp add: crossingCost_def crossingPenalty_def)
qed


section \<open>The spacing term\<close>

lemma strictly_sorted_sort_key:
  assumes "distinct (map vnum ns)"
  shows "sorted_wrt (\<lambda>a b. vnum a < vnum b) (sort_key vnum ns)"
proof -
  have "mset (map vnum (sort_key vnum ns)) = mset (map vnum ns)" by simp
  then have "distinct (map vnum (sort_key vnum ns))"
    using assms by (metis mset_eq_imp_distinct_iff)
  moreover have "sorted (map vnum (sort_key vnum ns))" by simp
  ultimately have "sorted_wrt (<) (map vnum (sort_key vnum ns))"
    by (simp add: strict_sorted_iff)
  then show ?thesis by (simp add: sorted_wrt_map)
qed

lemma voiceAdjacent_set: "set xs = set ys \<Longrightarrow> voiceAdjacent xs = voiceAdjacent ys"
  by (intro ext) (simp add: voiceAdjacent_def)

lemma spacingCost_sorted:
  assumes "sorted_wrt (\<lambda>a b. vnum a < vnum b) xs"
  shows "spacingCost xs
       = (\<Sum>a\<leftarrow>xs. \<Sum>b\<leftarrow>xs. if voiceAdjacent xs a b \<and> pitch a - pitch b > 12 then 100 else 0)"
  using assms
proof (induction xs rule: spacingCost.induct)
  case (1 x y rest)
  let ?zs = "y # rest"
  let ?all = "x # y # rest"
  let ?S = "\<lambda>ns a b. if voiceAdjacent ns a b \<and> pitch a - pitch b > 12 then (100::int) else 0"
  have xy: "vnum x < vnum y" and xr: "\<And>b. b \<in> set rest \<Longrightarrow> vnum x < vnum b"
    and yr: "\<And>b. b \<in> set rest \<Longrightarrow> vnum y < vnum b"
    and sz: "sorted_wrt (\<lambda>a b. vnum a < vnum b) ?zs"
    using "1.prems" by auto
  have IH: "spacingCost ?zs = (\<Sum>a\<leftarrow>?zs. \<Sum>b\<leftarrow>?zs. ?S ?zs a b)"
    using "1.IH"[OF sz] .
  have axy: "voiceAdjacent ?all x y"
    unfolding voiceAdjacent_def
  proof (intro conjI ballI notI)
    show "vnum x < vnum y" by (rule xy)
  next
    fix c assume c: "c \<in> set ?all" "vnum x < vnum c \<and> vnum c < vnum y"
    then have "c \<in> set rest" by auto
    then show False using yr[of c] c(2) by simp
  qed
  have xx: "?S ?all x x = 0" by (simp add: voiceAdjacent_def)
  have xrest: "(\<Sum>b\<leftarrow>rest. ?S ?all x b) = 0"
  proof (rule sum_list_zero)
    fix b assume "b \<in> set rest"
    then have "vnum x < vnum y \<and> vnum y < vnum b" using xy yr by simp
    then have "\<not> voiceAdjacent ?all x b" unfolding voiceAdjacent_def by (intro notI) auto
    then show "?S ?all x b = 0" by simp
  qed
  have row: "(\<Sum>b\<leftarrow>?all. ?S ?all x b) = (if pitch x - pitch y > 12 then 100 else 0)"
    using axy xx xrest by simp
  have inner: "(\<Sum>b\<leftarrow>?all. ?S ?all a b) = (\<Sum>b\<leftarrow>?zs. ?S ?zs a b)" if a: "a \<in> set ?zs" for a
  proof -
    have xa: "vnum x < vnum a" using a xy xr by auto
    have "?S ?all a x = 0" using xa by (simp add: voiceAdjacent_def)
    moreover have "?S ?all a b = ?S ?zs a b" for b
      using xa by (auto simp: voiceAdjacent_def)
    ultimately show ?thesis by simp
  qed
  have "(\<Sum>a\<leftarrow>?all. \<Sum>b\<leftarrow>?all. ?S ?all a b)
      = (\<Sum>b\<leftarrow>?all. ?S ?all x b) + (\<Sum>a\<leftarrow>?zs. \<Sum>b\<leftarrow>?all. ?S ?all a b)"
    by simp
  also have "(\<Sum>a\<leftarrow>?zs. \<Sum>b\<leftarrow>?all. ?S ?all a b) = (\<Sum>a\<leftarrow>?zs. \<Sum>b\<leftarrow>?zs. ?S ?zs a b)"
  proof -
    have "map (\<lambda>a. \<Sum>b\<leftarrow>?all. ?S ?all a b) ?zs = map (\<lambda>a. \<Sum>b\<leftarrow>?zs. ?S ?zs a b) ?zs"
    proof (rule map_cong[OF refl])
      fix a assume "a \<in> set ?zs"
      then show "(\<Sum>b\<leftarrow>?all. ?S ?all a b) = (\<Sum>b\<leftarrow>?zs. ?S ?zs a b)" by (rule inner)
    qed
    then show ?thesis by (simp only:)
  qed
  finally have "(\<Sum>a\<leftarrow>?all. \<Sum>b\<leftarrow>?all. ?S ?all a b)
      = (if pitch x - pitch y > 12 then 100 else 0) + spacingCost ?zs"
    unfolding row IH .
  then show ?case by simp
qed (simp_all add: voiceAdjacent_def)

lemma spacingCost_penalty:
  assumes "distinct (map vnum ns)"
  shows "spacingCost (sort_key vnum ns) = spacingPenalty ns"
proof -
  let ?xs = "sort_key vnum ns"
  have "spacingCost ?xs
      = (\<Sum>a\<leftarrow>?xs. \<Sum>b\<leftarrow>?xs. if voiceAdjacent ?xs a b \<and> pitch a - pitch b > 12 then 100 else 0)"
    using strictly_sorted_sort_key[OF assms] by (rule spacingCost_sorted)
  also have "voiceAdjacent ?xs = voiceAdjacent ns" by (rule voiceAdjacent_set) simp
  also have "(\<Sum>a\<leftarrow>?xs. \<Sum>b\<leftarrow>?xs. if voiceAdjacent ns a b \<and> pitch a - pitch b > 12 then (100::int) else 0)
      = (\<Sum>a\<leftarrow>ns. \<Sum>b\<leftarrow>ns. if voiceAdjacent ns a b \<and> pitch a - pitch b > 12 then 100 else 0)"
    by (rule sum_list_pairs_mset_cong) simp
  finally show ?thesis by (simp add: spacingPenalty_def)
qed


section \<open>Looking a voice up\<close>

lemma findIndex_SomeD:
  "findIndex Q xs = Some i \<Longrightarrow> i < length xs \<and> Q (xs ! i)"
proof (induction xs arbitrary: i)
  case Nil
  then show ?case by simp
next
  case (Cons x xs)
  show ?case
  proof (cases "Q x")
    case True
    then show ?thesis using Cons.prems by simp
  next
    case False
    then obtain j where j: "findIndex Q xs = Some j" "i = Suc j" using Cons.prems by auto
    then show ?thesis using Cons.IH[of j] by simp
  qed
qed

lemma findIndex_None_iff: "findIndex Q xs = None \<longleftrightarrow> (\<forall>x \<in> set xs. \<not> Q x)"
  by (induction xs) auto

lemma voicedDistinct_voice: "voicedDistinct ns \<Longrightarrow> n \<in> set ns \<Longrightarrow> voice n = Some (vnum n)"
  by (auto simp: voicedDistinct_def vnum_def)

lemma voicedDistinct_unique:
  assumes "voicedDistinct ns" "a \<in> set ns" "b \<in> set ns" "vnum a = vnum b"
  shows "a = b"
proof -
  have "voice a = voice b"
    using voicedDistinct_voice[OF assms(1,2)] voicedDistinct_voice[OF assms(1,3)] assms(4) by simp
  moreover have "inj_on voice (set ns)"
    using assms(1) by (simp add: voicedDistinct_def distinct_map)
  ultimately show ?thesis using assms(2,3) by (simp add: inj_on_def)
qed

lemma voicedDistinct_vnum: "voicedDistinct ns \<Longrightarrow> distinct (map vnum ns)"
proof -
  assume v: "voicedDistinct ns"
  then have "distinct ns" by (simp add: voicedDistinct_def distinct_map)
  moreover have "inj_on vnum (set ns)"
    using voicedDistinct_unique[OF v] by (auto simp: inj_on_def)
  ultimately show ?thesis by (simp add: distinct_map)
qed

lemma pitchOfVoice_note:
  assumes "voicedDistinct ns" "a \<in> set ns"
  shows "pitchOfVoice ns (vnum a) = pitch a"
proof -
  have "\<exists>x. x \<in> set ns \<and> voice x = Some (vnum a)"
    using assms voicedDistinct_voice by blast
  then obtain n where n: "find (\<lambda>n. voice n = Some (vnum a)) ns = Some n"
    using find_None_iff[of "\<lambda>n. voice n = Some (vnum a)" ns] by (cases "find (\<lambda>n. voice n = Some (vnum a)) ns") auto
  then have "n \<in> set ns" "voice n = Some (vnum a)"
    by (auto simp: find_Some_iff)
  then have "vnum n = vnum a" by (simp add: vnum_def)
  then have "n = a" using voicedDistinct_unique[OF assms(1) \<open>n \<in> set ns\<close> assms(2)] by simp
  then show ?thesis using n by (simp add: pitchOfVoice_def)
qed

lemma voicedDistinct_sort: "voicedDistinct (sort_key vnum ns) = voicedDistinct ns"
proof -
  have "mset (map voice (sort_key vnum ns)) = mset (map voice ns)" by simp
  then have "distinct (map voice (sort_key vnum ns)) = distinct (map voice ns)"
    by (rule mset_eq_imp_distinct_iff)
  then show ?thesis by (simp add: voicedDistinct_def)
qed

text \<open>What the lookup \<open>findIndex\<close> by voice finds in the sorted candidate chord.\<close>

lemma lookup_voice:
  assumes c: "voicedDistinct cand" and a: "voice a = Some v"
  shows "case findIndex (\<lambda>n. voice n = voice a) (sort_key vnum cand) of
           None \<Rightarrow> v \<notin> set (map vnum cand)
         | Some i \<Rightarrow> v \<in> set (map vnum cand) \<and> pitch (sort_key vnum cand ! i) = pitchOfVoice cand v"
proof (cases "findIndex (\<lambda>n. voice n = voice a) (sort_key vnum cand)")
  case None
  then have "\<forall>x \<in> set cand. voice x \<noteq> Some v" using a by (simp add: findIndex_None_iff)
  then have "v \<notin> set (map vnum cand)" using voicedDistinct_voice[OF c] by auto
  then show ?thesis using None by simp
next
  case (Some i)
  let ?n = "sort_key vnum cand ! i"
  from findIndex_SomeD[OF Some] have i: "i < length (sort_key vnum cand)" "voice ?n = Some v"
    using a by simp_all
  then have mem: "?n \<in> set cand" by (metis nth_mem set_sort)
  have vn: "vnum ?n = v" using i(2) by (simp add: vnum_def)
  then have "pitchOfVoice cand v = pitch ?n" using pitchOfVoice_note[OF c mem] by simp
  moreover have "v \<in> set (map vnum cand)" using mem vn by auto
  ultimately show ?thesis using Some by simp
qed

lemma jsRem_nonneg: "0 \<le> a \<Longrightarrow> jsRem a 12 = a mod 12"
  by (cases "a = 0") (simp_all add: jsRem_def)

lemma isParallel_parallelMotion:
  "0 \<le> x \<Longrightarrow> 0 \<le> y \<Longrightarrow> isParallelFifthOrOctave x y = parallelMotion x y"
  by (simp add: isParallelFifthOrOctave_def parallelMotion_def jsRem_nonneg)


section \<open>The movement term and the parallel term\<close>

lemma movementOf_voice:
  assumes c: "voicedDistinct cand" and p: "voicedDistinct prev" and a: "a \<in> set prev"
  shows "movementOf (sort_key vnum cand) a
       = (if vnum a \<in> set (map vnum cand)
          then 2 * \<bar>pitchOfVoice prev (vnum a) - pitchOfVoice cand (vnum a)\<bar> else 0)"
proof -
  have va: "voice a = Some (vnum a)" using p a by (rule voicedDistinct_voice)
  have pa: "pitchOfVoice prev (vnum a) = pitch a" using p a by (rule pitchOfVoice_note)
  from lookup_voice[OF c va] show ?thesis
    unfolding movementOf_def pa by (auto split: option.splits)
qed

lemma movementCost_total:
  assumes c: "voicedDistinct cand" and p: "voicedDistinct prev"
  shows "movementCost (sort_key vnum prev) (sort_key vnum cand) = movementTotal prev cand"
proof -
  let ?G = "\<lambda>v. 2 * \<bar>pitchOfVoice prev v - pitchOfVoice cand v\<bar>"
  have "movementCost (sort_key vnum prev) (sort_key vnum cand)
      = (\<Sum>a\<leftarrow>prev. movementOf (sort_key vnum cand) a)"
    unfolding movementCost_def by (rule sum_list_mset_cong) simp
  also have "\<dots> = (\<Sum>a\<leftarrow>prev. if vnum a \<in> set (map vnum cand) then ?G (vnum a) else 0)"
  proof -
    have "map (movementOf (sort_key vnum cand)) prev
        = map (\<lambda>a. if vnum a \<in> set (map vnum cand) then ?G (vnum a) else 0) prev"
    proof (rule map_cong[OF refl])
      fix a assume "a \<in> set prev"
      then show "movementOf (sort_key vnum cand) a
          = (if vnum a \<in> set (map vnum cand) then ?G (vnum a) else 0)"
        using movementOf_voice[OF c p] by simp
    qed
    then show ?thesis by (simp only:)
  qed
  also have "\<dots> = (\<Sum>v\<leftarrow>map vnum prev. if v \<in> set (map vnum cand) then ?G v else 0)"
    by (simp add: comp_def)
  also have "\<dots> = (\<Sum>v\<leftarrow>filter (\<lambda>v. v \<in> set (map vnum cand)) (map vnum prev). ?G v)"
    by (rule sum_list_map_filter'[symmetric])
  finally show ?thesis by (simp add: movementTotal_def commonVoices_def)
qed

lemma pairParallel_voice:
  assumes c: "voicedDistinct cand" and p: "voicedDistinct prev"
    and a: "a \<in> set prev" and b: "b \<in> set prev"
  shows "pairParallel (sort_key vnum cand) a b
       = (if vnum a \<in> set (map vnum cand) \<and> vnum b \<in> set (map vnum cand)
          then (if parallelMotion \<bar>pitchOfVoice prev (vnum a) - pitchOfVoice prev (vnum b)\<bar>
                                  \<bar>pitchOfVoice cand (vnum a) - pitchOfVoice cand (vnum b)\<bar>
                then 500 else 0)
          else 0)"
proof -
  have va: "voice a = Some (vnum a)" using p a by (rule voicedDistinct_voice)
  have vb: "voice b = Some (vnum b)" using p b by (rule voicedDistinct_voice)
  have pa: "pitchOfVoice prev (vnum a) = pitch a" using p a by (rule pitchOfVoice_note)
  have pb: "pitchOfVoice prev (vnum b) = pitch b" using p b by (rule pitchOfVoice_note)
  from lookup_voice[OF c va] lookup_voice[OF c vb] show ?thesis
    unfolding pairParallel_def Let_def pa pb
    by (auto split: option.splits simp: isParallel_parallelMotion)
qed

lemma sum_list_filter_pairs:
  fixes K :: "'a \<Rightarrow> 'a \<Rightarrow> int"
  shows "(\<Sum>v\<leftarrow>xs. \<Sum>w\<leftarrow>xs. if Q v \<and> Q w then K v w else 0)
       = (\<Sum>v\<leftarrow>filter Q xs. \<Sum>w\<leftarrow>filter Q xs. K v w)"
proof -
  have inner: "(\<Sum>w\<leftarrow>filter Q xs. K v w) = (\<Sum>w\<leftarrow>xs. if Q w then K v w else 0)" for v
    by (rule sum_list_map_filter')
  have "(\<Sum>v\<leftarrow>filter Q xs. \<Sum>w\<leftarrow>filter Q xs. K v w)
      = (\<Sum>v\<leftarrow>xs. if Q v then (\<Sum>w\<leftarrow>filter Q xs. K v w) else 0)"
    by (rule sum_list_map_filter')
  also have "\<dots> = (\<Sum>v\<leftarrow>xs. if Q v then (\<Sum>w\<leftarrow>xs. if Q w then K v w else 0) else 0)"
    unfolding inner ..
  also have "\<dots> = (\<Sum>v\<leftarrow>xs. \<Sum>w\<leftarrow>xs. if Q v \<and> Q w then K v w else 0)"
  proof -
    have "(if Q v then (\<Sum>w\<leftarrow>xs. if Q w then K v w else 0) else 0)
        = (\<Sum>w\<leftarrow>xs. if Q v \<and> Q w then K v w else 0)" for v
      by (cases "Q v") (simp_all add: sum_list_zero)
    then show ?thesis by simp
  qed
  finally show ?thesis by simp
qed

lemma parallelCost_penalty:
  assumes c: "voicedDistinct cand" and p: "voicedDistinct prev"
  shows "parallelCost (sort_key vnum prev) (sort_key vnum cand) = parallelPenalty prev cand"
proof -
  let ?cs = "sort_key vnum cand"
  let ?Q = "\<lambda>v. v \<in> set (map vnum cand)"
  let ?K = "\<lambda>v w. if v < w \<and> parallelMotion \<bar>pitchOfVoice prev v - pitchOfVoice prev w\<bar>
                                   \<bar>pitchOfVoice cand v - pitchOfVoice cand w\<bar>
                 then (500::int) else 0"
  let ?f = "\<lambda>a b. if vnum a < vnum b then pairParallel ?cs a b else 0"
  have "pairSum (pairParallel ?cs) (sort_key vnum prev)
      = (\<Sum>a\<leftarrow>sort_key vnum prev. \<Sum>b\<leftarrow>sort_key vnum prev. ?f a b)"
    by (rule pairSum_square[OF strictly_sorted_sort_key[OF voicedDistinct_vnum[OF p]]]) auto
  also have "\<dots> = (\<Sum>a\<leftarrow>prev. \<Sum>b\<leftarrow>prev. ?f a b)"
    by (rule sum_list_pairs_mset_cong) simp
  also have "\<dots> = (\<Sum>a\<leftarrow>prev. \<Sum>b\<leftarrow>prev. if ?Q (vnum a) \<and> ?Q (vnum b) then ?K (vnum a) (vnum b) else 0)"
  proof -
    have "map (\<lambda>a. \<Sum>b\<leftarrow>prev. ?f a b) prev
        = map (\<lambda>a. \<Sum>b\<leftarrow>prev. if ?Q (vnum a) \<and> ?Q (vnum b) then ?K (vnum a) (vnum b) else 0) prev"
    proof (rule map_cong[OF refl])
      fix a assume a: "a \<in> set prev"
      have "map (?f a) prev
          = map (\<lambda>b. if ?Q (vnum a) \<and> ?Q (vnum b) then ?K (vnum a) (vnum b) else 0) prev"
      proof (rule map_cong[OF refl])
        fix b assume b: "b \<in> set prev"
        show "?f a b = (if ?Q (vnum a) \<and> ?Q (vnum b) then ?K (vnum a) (vnum b) else 0)"
          unfolding pairParallel_voice[OF c p a b] by simp
      qed
      then show "(\<Sum>b\<leftarrow>prev. ?f a b)
          = (\<Sum>b\<leftarrow>prev. if ?Q (vnum a) \<and> ?Q (vnum b) then ?K (vnum a) (vnum b) else 0)"
        by (simp only:)
    qed
    then show ?thesis by (simp only:)
  qed
  also have "\<dots> = (\<Sum>v\<leftarrow>map vnum prev. \<Sum>w\<leftarrow>map vnum prev. if ?Q v \<and> ?Q w then ?K v w else 0)"
    by (simp add: comp_def)
  also have "\<dots> = (\<Sum>v\<leftarrow>filter ?Q (map vnum prev). \<Sum>w\<leftarrow>filter ?Q (map vnum prev). ?K v w)"
    by (rule sum_list_filter_pairs)
  finally show ?thesis by (simp add: parallelCost_def parallelPenalty_def commonVoices_def)
qed


section \<open>The cost function, term by term\<close>

lemma penalties_nonneg:
  "0 \<le> crossingPenalty cand" "0 \<le> spacingPenalty cand"
  "0 \<le> parallelPenalty prev cand" "0 \<le> movementTotal prev cand"
  unfolding crossingPenalty_def spacingPenalty_def parallelPenalty_def movementTotal_def
  by (auto intro!: sum_list_nonneg)

text \<open>
  What the cost function computes. For a previous chord and a candidate chord whose notes
  all carry a voice, no two notes of a chord the same one (the candidate chord being the
  chord after the assignment is written on it), the cost returned is the sum of: 1000 for
  each pair of candidate notes of which the one on the lower voice index has the lower
  pitch; 100 for each pair of voice-adjacent candidate notes of which the one on the lower
  voice index is more than 12 semitones above the other (the one-sided test of the code);
  500 for each pair of voices present in both chords whose absolute interval is 7 modulo
  12 in both chords, or 0 modulo 12 in both and not zero in the previous chord; and twice
  the absolute displacement of each voice present in both chords. The cost is not negative.
\<close>

lemma calculateVoiceLeadingCost_directed:
  assumes "length voiceAssignments \<le> length (chord_notes currentChord)"
    and "voicedDistinct (chord_notes prevChord)"
    and "voicedDistinct (writeVoices voiceAssignments (chord_notes currentChord))"
  shows "calculateVoiceLeadingCost prevChord currentChord voiceAssignments
       = Inr (directedCost (chord_notes prevChord)
                (writeVoices voiceAssignments (chord_notes currentChord)),
              currentChord\<lparr>chord_notes := writeVoices voiceAssignments (chord_notes currentChord)\<rparr>)
     \<and> 0 \<le> directedCost (chord_notes prevChord)
                (writeVoices voiceAssignments (chord_notes currentChord))"
proof -
  let ?prev = "chord_notes prevChord"
  let ?cand = "writeVoices voiceAssignments (chord_notes currentChord)"
  have "costOfNotes ?prev ?cand = directedCost ?prev ?cand"
    unfolding costOfNotes_def Let_def directedCost_def
    using crossingCost_penalty[of ?cand]
      spacingCost_penalty[OF voicedDistinct_vnum[OF assms(3)]]
      parallelCost_penalty[OF assms(3) assms(2)]
      movementCost_total[OF assms(3) assms(2)]
    by simp
  moreover have "0 \<le> directedCost ?prev ?cand"
    unfolding directedCost_def
    using penalties_nonneg(1,2)[of ?cand] penalties_nonneg(3,4)[of ?prev ?cand] by simp
  ultimately show ?thesis
    using assms(1) by (simp add: calculateVoiceLeadingCost_ok)
qed

lemma calculateVoiceLeadingCost_directed_example:
  "length [0, 1, 2 :: int]
     \<le> length (chord_notes (chordOf 8 [inputNote 74 8 8, inputNote 69 8 8, inputNote 62 8 8]))
   \<and> voicedDistinct (chord_notes (chordOf 0 [voicedNote 72 0 8 0, voicedNote 67 0 8 1, voicedNote 60 0 8 2]))
   \<and> voicedDistinct (writeVoices [0, 1, 2]
        (chord_notes (chordOf 8 [inputNote 74 8 8, inputNote 69 8 8, inputNote 62 8 8])))
   \<and> calculateVoiceLeadingCost
        (chordOf 0 [voicedNote 72 0 8 0, voicedNote 67 0 8 1, voicedNote 60 0 8 2])
        (chordOf 8 [inputNote 74 8 8, inputNote 69 8 8, inputNote 62 8 8]) [0, 1, 2]
       = Inr (1012, chordOf 8 [voicedNote 74 8 8 0, voicedNote 69 8 8 1, voicedNote 62 8 8 2])
   \<and> directedCost [voicedNote 72 0 8 0, voicedNote 67 0 8 1, voicedNote 60 0 8 2]
                   [voicedNote 74 8 8 0, voicedNote 69 8 8 1, voicedNote 62 8 8 2] = 1012"
proof -
  let ?prev = "chordOf 0 [voicedNote 72 0 8 0, voicedNote 67 0 8 1, voicedNote 60 0 8 2]"
  let ?cur = "chordOf 8 [inputNote 74 8 8, inputNote 69 8 8, inputNote 62 8 8]"
  let ?cand = "[voicedNote 74 8 8 0, voicedNote 69 8 8 1, voicedNote 62 8 8 2]"
  have a: "length [0, 1, 2 :: int] \<le> length (chord_notes ?cur)"
    by (simp add: chordOf_def)
  have b: "voicedDistinct (chord_notes ?prev)"
    by (simp add: voicedDistinct_def chordOf_def voicedNote_def)
  have w: "writeVoices [0, 1, 2] (chord_notes ?cur) = ?cand"
    by (simp add: writeVoices_def chordOf_def inputNote_def voicedNote_def)
  have c: "voicedDistinct (writeVoices [0, 1, 2] (chord_notes ?cur))"
    unfolding w by (simp add: voicedDistinct_def voicedNote_def)
  have p: "chord_notes ?prev = [voicedNote 72 0 8 0, voicedNote 67 0 8 1, voicedNote 60 0 8 2]"
    by (simp add: chordOf_def)
  have q: "?cur\<lparr>chord_notes := ?cand\<rparr> = chordOf 8 ?cand"
    by (simp add: chordOf_def)
  have d: "directedCost [voicedNote 72 0 8 0, voicedNote 67 0 8 1, voicedNote 60 0 8 2] ?cand = 1012"
    by code_simp
  from calculateVoiceLeadingCost_directed[OF a b c] a b c d show ?thesis
    unfolding w p q by simp
qed

end
